theory Spec2Isabelle
  imports Main "HOL-Library.Sublist" "HOL-Library.AList"
begin

section \<open>Python strings and values\<close>

text \<open>
  Text is modelled as \<^typ>\<open>string\<close>, one character per byte: the embedding covers ASCII
  text, for which decoding is the identity and the size of a file in bytes is the length
  of its text. In the listings of \<^verbatim>\<open>modular_core.py\<close> a loop or parameter variable
  written with a leading underscore (\<^verbatim>\<open>_line\<close>, \<^verbatim>\<open>_entry\<close>) and the same
  name without it denote one variable.
\<close>

definition ord :: "char \<Rightarrow> nat" where
  "ord c = of_char c"

text \<open>\<^verbatim>\<open>str.lower()\<close> and \<^verbatim>\<open>str.upper()\<close> on ASCII text.\<close>

definition py_lower_char :: "char \<Rightarrow> char" where
  "py_lower_char c = (if 65 \<le> ord c \<and> ord c \<le> 90 then char_of (ord c + 32) else c)"

definition py_upper_char :: "char \<Rightarrow> char" where
  "py_upper_char c = (if 97 \<le> ord c \<and> ord c \<le> 122 then char_of (ord c - 32) else c)"

definition py_lower :: "string \<Rightarrow> string" where
  "py_lower s = map py_lower_char s"

definition py_upper :: "string \<Rightarrow> string" where
  "py_upper s = map py_upper_char s"

text \<open>
  A value of Python's \<^verbatim>\<open>Any\<close>, as far as filter mappings and keyword arguments carry
  it: a string, an integer or \<^verbatim>\<open>None\<close>. \<open>truthy\<close> is Python's truth test.
\<close>

datatype pyval = PStr string | PInt int | PNone

fun truthy :: "pyval \<Rightarrow> bool" where
  "truthy (PStr s) = (s \<noteq> [])"
| "truthy (PInt n) = (n \<noteq> 0)"
| "truthy PNone = False"

datatype error = AttributeError | ValueError | OSError

section \<open>Entries\<close>

text \<open>
  \<^verbatim>\<open>extra_data\<close> is a dictionary; its reserved key \<^verbatim>\<open>patterns\<close> holds a list of pattern
  names, every other key an arbitrary value. The dictionary is empty when \<open>patterns\<close> is
  \<open>None\<close> and \<open>others\<close> is \<open>[]\<close>.
\<close>

record extra =
  patterns :: "string list option"
  others :: "(string \<times> pyval) list"

record entry =
  timestamp :: nat
  level :: string
  message :: string
  file_path :: "string option"
  line_number :: "int option"
  extra_data :: "extra option"

text \<open>The dataclass constructor with its defaults, as \<^verbatim>\<open>LogEntry(now, "INFO", "text")\<close>.\<close>

definition LogEntry :: "nat \<Rightarrow> string \<Rightarrow> string \<Rightarrow> entry" where
  "LogEntry ts lvl msg =
     \<lparr>timestamp = ts, level = lvl, message = msg, file_path = None, line_number = None,
      extra_data = None\<rparr>"

section \<open>Filters\<close>

type_synonym filters = "string \<rightharpoonup> pyval"

text \<open>\<^verbatim>\<open>filters.get(k)\<close>: the value under \<open>k\<close>, \<^verbatim>\<open>None\<close> when the key is absent.\<close>

definition filters_get :: "filters \<Rightarrow> string \<Rightarrow> pyval" where
  "filters_get f k = (case f k of None \<Rightarrow> PNone | Some v \<Rightarrow> v)"

text \<open>
  The three tests of \<^verbatim>\<open>MemoryStorage.retrieve\<close>, in the order of the source; \<open>Inr False\<close>
  is its \<^verbatim>\<open>continue\<close>. \<^verbatim>\<open>filters["search"].lower()\<close> raises \<^verbatim>\<open>AttributeError\<close> on a value
  that is not a string.
\<close>

definition level_differs :: "filters \<Rightarrow> entry \<Rightarrow> bool" where
  "level_differs f e = (truthy (filters_get f ''level'') \<and> PStr (level e) \<noteq> filters_get f ''level'')"

definition search_misses :: "filters \<Rightarrow> entry \<Rightarrow> error + bool" where
  "search_misses f e =
     (if truthy (filters_get f ''search'')
      then (case filters_get f ''search'' of
              PStr s \<Rightarrow> Inr (\<not> sublist (py_lower s) (py_lower (message e)))
            | _ \<Rightarrow> Inl AttributeError)
      else Inr False)"

definition file_path_differs :: "filters \<Rightarrow> entry \<Rightarrow> bool" where
  "file_path_differs f e =
     (truthy (filters_get f ''file_path'') \<and>
      (case file_path e of None \<Rightarrow> PNone | Some p \<Rightarrow> PStr p) \<noteq> filters_get f ''file_path'')"

definition passes :: "filters \<Rightarrow> entry \<Rightarrow> error + bool" where
  "passes f e =
     (if level_differs f e then Inr False
      else case search_misses f e of
             Inl err \<Rightarrow> Inl err
           | Inr True \<Rightarrow> Inr False
           | Inr False \<Rightarrow> Inr (\<not> file_path_differs f e))"

section \<open>Memory storage\<close>

text \<open>
  \<^verbatim>\<open>deque(maxlen=max_entries)\<close>: \<open>append\<close> on a full deque discards the leftmost item,
  and on a deque of capacity 0 it adds nothing.
\<close>

record memory_storage =
  entries :: "entry list"
  max_entries :: nat

definition MemoryStorage :: "nat \<Rightarrow> memory_storage" where
  "MemoryStorage n = \<lparr>entries = [], max_entries = n\<rparr>"

definition deque_append :: "nat \<Rightarrow> 'a list \<Rightarrow> 'a \<Rightarrow> 'a list" where
  "deque_append maxlen xs x =
     (if maxlen = 0 then xs
      else if length xs \<ge> maxlen then tl xs @ [x]
      else xs @ [x])"

definition mem_store :: "memory_storage \<Rightarrow> entry \<Rightarrow> memory_storage" where
  "mem_store ms e = ms\<lparr>entries := deque_append (max_entries ms) (entries ms) e\<rparr>"

text \<open>
  The loop of \<^verbatim>\<open>retrieve\<close> over \<^verbatim>\<open>reversed(self.entries)\<close>: an entry that passes is
  appended to \<open>results\<close>, and the loop breaks once \<^verbatim>\<open>len(results) >= limit\<close>, a test made
  only after an append.
\<close>

fun retrieve_loop :: "filters \<Rightarrow> int \<Rightarrow> entry list \<Rightarrow> entry list \<Rightarrow> error + entry list" where
  "retrieve_loop f limit [] results = Inr results"
| "retrieve_loop f limit (e # es) results =
     (case passes f e of
        Inl err \<Rightarrow> Inl err
      | Inr False \<Rightarrow> retrieve_loop f limit es results
      | Inr True \<Rightarrow>
          (if int (length (results @ [e])) \<ge> limit then Inr (results @ [e])
           else retrieve_loop f limit es (results @ [e])))"

definition mem_retrieve :: "memory_storage \<Rightarrow> filters \<Rightarrow> int \<Rightarrow> error + entry list" where
  "mem_retrieve ms f limit = retrieve_loop f limit (rev (entries ms)) []"

text \<open>Storing a sequence of entries, one \<^verbatim>\<open>store\<close> call each, in order.\<close>

definition mem_store_all :: "memory_storage \<Rightarrow> entry list \<Rightarrow> memory_storage" where
  "mem_store_all ms es = foldl mem_store ms es"

section \<open>Regular expressions\<close>

text \<open>
  The fragment of Python's \<^verbatim>\<open>re\<close> that the patterns of the repository use, with the
  backtracking order of the library: a group, a literal string, a character class, a
  greedy repetition of a class (\<^verbatim>\<open>+\<close>, \<^verbatim>\<open>*\<close>, \<^verbatim>\<open>{m,n}\<close>), a greedy option, sequence,
  alternation, \<^verbatim>\<open>^\<close> and \<^verbatim>\<open>\b\<close>.
\<close>

definition is_digit :: "char \<Rightarrow> bool" where
  "is_digit c = (48 \<le> ord c \<and> ord c \<le> 57)"

definition is_word :: "char \<Rightarrow> bool" where
  "is_word c = ((97 \<le> ord c \<and> ord c \<le> 122) \<or> (65 \<le> ord c \<and> ord c \<le> 90) \<or> is_digit c \<or> ord c = 95)"

text \<open>\<^verbatim>\<open>str.isspace()\<close> on one ASCII character; \<^verbatim>\<open>\s\<close> matches the same characters.\<close>

definition py_isspace :: "char \<Rightarrow> bool" where
  "py_isspace c = ((9 \<le> ord c \<and> ord c \<le> 13) \<or> (28 \<le> ord c \<and> ord c \<le> 32))"

datatype re =
    Str string
  | Cls "char \<Rightarrow> bool"
  | Rep "char \<Rightarrow> bool" nat "nat option"
  | Opt re
  | Seq re re
  | Alt re re
  | Grp nat re
  | Bol
  | WordB

text \<open>
  A matcher state: the character before the current position (\<open>None\<close> at the start of
  the text), the text from the current position on, and the groups captured so far.
\<close>

type_synonym mstate = "char option \<times> string \<times> (nat \<times> string) list"

definition advance :: "nat \<Rightarrow> mstate \<Rightarrow> mstate" where
  "advance k st =
     (case st of (prev, s, caps) \<Rightarrow>
        (if k = 0 \<or> length s < k then prev else Some (s ! (k - 1)), drop k s, caps))"

definition same_char :: "bool \<Rightarrow> char \<Rightarrow> char \<Rightarrow> bool" where
  "same_char ci a b = (if ci then py_lower_char a = py_lower_char b else a = b)"

definition str_matches :: "bool \<Rightarrow> string \<Rightarrow> string \<Rightarrow> bool" where
  "str_matches ci lit s = (length lit \<le> length s \<and> list_all2 (same_char ci) lit (take (length lit) s))"

definition at_word_boundary :: "mstate \<Rightarrow> bool" where
  "at_word_boundary st =
     (case st of (prev, s, caps) \<Rightarrow>
        (case prev of None \<Rightarrow> False | Some c \<Rightarrow> is_word c)
          \<noteq> (case s of [] \<Rightarrow> False | c # _ \<Rightarrow> is_word c))"

text \<open>
  \<open>bt ci r st\<close> lists the states in which a match of \<open>r\<close> started in \<open>st\<close> can end, in
  the order in which the backtracking matcher tries them; \<open>ci\<close> is the flag \<^verbatim>\<open>re.I\<close>.
\<close>

fun bt :: "bool \<Rightarrow> re \<Rightarrow> mstate \<Rightarrow> mstate list" where
  "bt ci (Str lit) st = (if str_matches ci lit (fst (snd st)) then [advance (length lit) st] else [])"
| "bt ci (Cls p) st = (case fst (snd st) of [] \<Rightarrow> [] | c # _ \<Rightarrow> if p c then [advance 1 st] else [])"
| "bt ci (Rep p lo hi) st =
     (let n = length (takeWhile p (fst (snd st)));
          m = (case hi of None \<Rightarrow> n | Some h \<Rightarrow> min h n)
      in map (\<lambda>k. advance k st) (rev [lo ..< Suc m]))"
| "bt ci (Opt r) st = bt ci r st @ [st]"
| "bt ci (Seq a b) st = concat (map (bt ci b) (bt ci a st))"
| "bt ci (Alt a b) st = bt ci a st @ bt ci b st"
| "bt ci (Grp g r) st =
     map (\<lambda>st'. (fst st', fst (snd st'),
                  (g, take (length (fst (snd st)) - length (fst (snd st'))) (fst (snd st))) # snd (snd st')))
         (bt ci r st)"
| "bt ci Bol st = (if fst st = None then [st] else [])"
| "bt ci WordB st = (if at_word_boundary st then [st] else [])"

text \<open>
  A match object: the matched text (group 0) and the captured groups. \<open>m_group\<close> is
  \<^verbatim>\<open>match.group(g)\<close>, \<open>None\<close> for a group that took no part in the match.
\<close>

type_synonym match = "string \<times> (nat \<times> string) list"

definition m_group :: "match \<Rightarrow> nat \<Rightarrow> string option" where
  "m_group m g = (if g = 0 then Some (fst m) else map_of (snd m) g)"

text \<open>
  \<^verbatim>\<open>pattern.search(text)\<close>: the first match at the leftmost position that has one, every
  position from the start of the text to its end being tried in turn.
\<close>

fun search_from :: "bool \<Rightarrow> re \<Rightarrow> char option \<Rightarrow> string \<Rightarrow> match option" where
  "search_from ci r prev s =
     (case bt ci r (prev, s, []) of
        st' # _ \<Rightarrow> Some (take (length s - length (fst (snd st'))) s, snd (snd st'))
      | [] \<Rightarrow> (case s of [] \<Rightarrow> None | c # cs \<Rightarrow> search_from ci r (Some c) cs))"

definition search :: "bool \<Rightarrow> re \<Rightarrow> string \<Rightarrow> match option" where
  "search ci r s = search_from ci r None s"

section \<open>Log level parser\<close>

text \<open>
  The result of a processor, the dictionary it returns: the keys \<^verbatim>\<open>level\<close> and
  \<^verbatim>\<open>patterns\<close> when present, and whether it has keys besides these two.
\<close>

record presult =
  r_level :: "string option"
  r_patterns :: "string list option"
  r_other_keys :: bool

definition word_plus :: re where
  "word_plus = Rep is_word 1 None"


definition LEVEL_PATTERNS :: "(re \<times> nat) list" where
  "LEVEL_PATTERNS =
     [(Seq (Str ''['') (Seq (Grp 1 word_plus) (Str '']'')), 1),
      (Seq Bol (Seq (Grp 1 word_plus) (Str '':'')), 1),
      (Grp 1 (Alt (Str ''DEBUG'') (Alt (Str ''INFO'') (Alt (Str ''WARNING'')
         (Alt (Str ''ERROR'') (Alt (Str ''CRITICAL'') (Str ''TRACE'')))))), 0)]"

text \<open>
  \<^verbatim>\<open>LogLevelParser.process\<close>: the patterns are compiled with \<^verbatim>\<open>re.I\<close> and tried in order;
  \<^verbatim>\<open>.upper()\<close> on the \<^verbatim>\<open>None\<close> of a group that took no part raises. \<open>level_result l\<close> is
  the dictionary \<^verbatim>\<open>{"level": l}\<close>.
\<close>

definition level_result :: "string \<Rightarrow> presult" where
  "level_result l = \<lparr>r_level = Some l, r_patterns = None, r_other_keys = False\<rparr>"

fun level_of_patterns :: "(re \<times> nat) list \<Rightarrow> string \<Rightarrow> error + presult option" where
  "level_of_patterns [] msg = Inr (Some (level_result ''INFO''))"
| "level_of_patterns ((pattern, g) # ps) msg =
     (case search True pattern msg of
        Some m \<Rightarrow>
          (case m_group m (if g \<noteq> 0 then g else 0) of
             Some t \<Rightarrow> Inr (Some (level_result (py_upper t)))
           | None \<Rightarrow> Inl AttributeError)
      | None \<Rightarrow> level_of_patterns ps msg)"

definition LogLevelParser_process :: "entry \<Rightarrow> error + presult option" where
  "LogLevelParser_process e = level_of_patterns LEVEL_PATTERNS (message e)"

section \<open>The level parser as the specification words it\<close>










section \<open>Pattern detector\<close>

text \<open>
  The dictionary of \<^verbatim>\<open>PatternDetector\<close>, in its order: the name, whether the pattern is
  compiled with \<^verbatim>\<open>re.I\<close>, and the pattern. \<^verbatim>\<open>(?:\d{1,3}\.){3}\<close> is written as its three
  copies.
\<close>

definition digits_plus :: re where
  "digits_plus = Rep is_digit 1 None"

definition number_re :: re where
  "number_re = Seq digits_plus (Seq (Opt (Str ''.'')) (Rep is_digit 0 None))"

definition octet_dot :: re where
  "octet_dot = Seq (Rep is_digit 1 (Some 3)) (Str ''.'')"

definition detector_patterns :: "(string \<times> bool \<times> re) list" where
  "detector_patterns =
     [(''error'', True, Alt (Str ''error'') (Alt (Str ''exception'') (Str ''failed''))),
      (''warning'', True, Alt (Str ''warning'') (Alt (Str ''warn'') (Str ''caution''))),
      (''performance'', True,
         Seq (Grp 1 number_re) (Seq (Rep py_isspace 0 None)
           (Grp 2 (Alt (Str ''ms'') (Alt (Seq (Str ''second'') (Opt (Str ''s'')))
                                         (Seq (Str ''minute'') (Opt (Str ''s'')))))))),
      (''memory'', True,
         Seq (Grp 1 number_re) (Seq (Rep py_isspace 0 None)
           (Grp 2 (Alt (Str ''MB'') (Alt (Str ''GB'') (Str ''KB'')))))),
      (''ip_address'', False,
         Seq WordB (Seq octet_dot (Seq octet_dot (Seq octet_dot
           (Seq (Rep is_digit 1 (Some 3)) WordB))))),
      (''url'', False,
         Seq (Str ''http'') (Seq (Opt (Str ''s'')) (Seq (Str ''://'')
           (Rep (\<lambda>c. \<not> py_isspace c) 1 None)))),
      (''stacktrace'', True,
         Alt (Str ''traceback'') (Alt (Str ''stack trace'')
           (Seq (Str ''at line '') digits_plus)))]"

definition detect :: "(string \<times> bool \<times> re) list \<Rightarrow> string \<Rightarrow> string list" where
  "detect pats msg = map fst (filter (\<lambda>(name, ci, r). search ci r msg \<noteq> None) pats)"

definition patterns_result :: "string list \<Rightarrow> presult" where
  "patterns_result ps = \<lparr>r_level = None, r_patterns = Some ps, r_other_keys = False\<rparr>"

definition PatternDetector_process :: "entry \<Rightarrow> error + presult option" where
  "PatternDetector_process e =
     (let detected = detect detector_patterns (message e)
      in Inr (if detected \<noteq> [] then Some (patterns_result detected) else None))"

section \<open>The processing pipeline and the statistics\<close>

text \<open>
  A processor maps an entry to the dictionary it returns, to \<open>None\<close>, or raises. The
  processors of the repository do not modify the entry they are given.
\<close>

type_synonym processor = "entry \<Rightarrow> error + presult option"

definition default_processors :: "processor list" where
  "default_processors = [LogLevelParser_process, PatternDetector_process]"

text \<open>\<^verbatim>\<open>if result:\<close> holds for a dictionary that has at least one key.\<close>

definition result_truthy :: "presult option \<Rightarrow> bool" where
  "result_truthy r =
     (case r of None \<Rightarrow> False
      | Some d \<Rightarrow> r_level d \<noteq> None \<or> r_patterns d \<noteq> None \<or> r_other_keys d)"

text \<open>\<^verbatim>\<open>not entry.extra_data\<close>: \<^verbatim>\<open>None\<close> or the empty dictionary.\<close>

definition extra_falsy :: "extra option \<Rightarrow> bool" where
  "extra_falsy x = (case x of None \<Rightarrow> True | Some d \<Rightarrow> patterns d = None \<and> others d = [])"

definition set_patterns :: "string list \<Rightarrow> entry \<Rightarrow> entry" where
  "set_patterns ps e =
     (let d = (if extra_falsy (extra_data e) then \<lparr>patterns = None, others = []\<rparr>
               else (case extra_data e of Some d \<Rightarrow> d | None \<Rightarrow> \<lparr>patterns = None, others = []\<rparr>))
      in e\<lparr>extra_data := Some (d\<lparr>patterns := Some ps\<rparr>)\<rparr>)"

text \<open>
  The body of the loop of \<^verbatim>\<open>_process_and_store\<close> in \<^verbatim>\<open>modular_core.py\<close> for one result:
  a level is taken over only while the entry is at \<^verbatim>\<open>INFO\<close> or \<^verbatim>\<open>DEBUG\<close>.
\<close>

definition apply_level :: "string \<Rightarrow> entry \<Rightarrow> entry" where
  "apply_level detected_level e =
     (if level e = ''INFO'' \<or> level e = ''DEBUG'' then e\<lparr>level := detected_level\<rparr> else e)"

definition apply_result :: "presult option \<Rightarrow> entry \<Rightarrow> entry" where
  "apply_result r e =
     (if result_truthy r
      then (case r of
              None \<Rightarrow> e
            | Some d \<Rightarrow>
                (let e1 = (case r_level d of Some l \<Rightarrow> apply_level l e | None \<Rightarrow> e)
                 in (case r_patterns d of Some ps \<Rightarrow> set_patterns ps e1 | None \<Rightarrow> e1)))
      else e)"

fun run_processors :: "processor list \<Rightarrow> entry \<Rightarrow> error + entry" where
  "run_processors [] e = Inr e"
| "run_processors (p # ps) e =
     (case p e of Inl err \<Rightarrow> Inl err | Inr r \<Rightarrow> run_processors ps (apply_result r e))"

text \<open>
  The same loop in \<^verbatim>\<open>modular-core-logger.py\<close>, where \<^verbatim>\<open>entry.level = result["level"]\<close> is
  not guarded.
\<close>

definition apply_result_core_logger :: "presult option \<Rightarrow> entry \<Rightarrow> entry" where
  "apply_result_core_logger r e =
     (if result_truthy r
      then (case r of
              None \<Rightarrow> e
            | Some d \<Rightarrow>
                (let e1 = (case r_level d of Some l \<Rightarrow> e\<lparr>level := l\<rparr> | None \<Rightarrow> e)
                 in (case r_patterns d of Some ps \<Rightarrow> set_patterns ps e1 | None \<Rightarrow> e1)))
      else e)"

fun run_processors_core_logger :: "processor list \<Rightarrow> entry \<Rightarrow> error + entry" where
  "run_processors_core_logger [] e = Inr e"
| "run_processors_core_logger (p # ps) e =
     (case p e of
        Inl err \<Rightarrow> Inl err
      | Inr r \<Rightarrow> run_processors_core_logger ps (apply_result_core_logger r e))"

text \<open>
  The statistics. \<open>cnt m k\<close> is \<^verbatim>\<open>m.get(k, 0)\<close>, \<open>bump m k\<close> is
  \<^verbatim>\<open>m[k] = m.get(k, 0) + 1\<close>.
\<close>

record stats =
  total_logs :: nat
  by_level :: "string \<rightharpoonup> nat"
  by_pattern :: "string \<rightharpoonup> nat"
  start_time :: nat

definition cnt :: "(string \<rightharpoonup> nat) \<Rightarrow> string \<Rightarrow> nat" where
  "cnt m k = (case m k of None \<Rightarrow> 0 | Some n \<Rightarrow> n)"

definition bump :: "(string \<rightharpoonup> nat) \<Rightarrow> string \<Rightarrow> (string \<rightharpoonup> nat)" where
  "bump m k = m(k \<mapsto> cnt m k + 1)"

text \<open>
  The names the statistics loop runs over: those under \<^verbatim>\<open>patterns\<close> when
  \<^verbatim>\<open>entry.extra_data and "patterns" in entry.extra_data\<close>, none otherwise.
\<close>

definition entry_patterns :: "entry \<Rightarrow> string list" where
  "entry_patterns e =
     (if extra_falsy (extra_data e) then []
      else (case extra_data e of
              None \<Rightarrow> []
            | Some d \<Rightarrow> (case patterns d of None \<Rightarrow> [] | Some ps \<Rightarrow> ps)))"

definition update_stats :: "stats \<Rightarrow> entry \<Rightarrow> stats" where
  "update_stats st e =
     st\<lparr>total_logs := total_logs st + 1,
        by_level := bump (by_level st) (level e),
        by_pattern := foldl bump (by_pattern st) (entry_patterns e)\<rparr>"

section \<open>File system\<close>

text \<open>
  The files the program sees: an association list from paths to nodes, in the order in
  which a directory listing yields them. A regular file has its content, a directory
  and any other kind of node the size that \<^verbatim>\<open>os.path.getsize\<close> reports. Paths are in
  normal form, and a path lies under a directory \<open>d\<close> when it extends \<open>d\<close> and a slash.
  A write, a removal or a rename that meets a directory fails, and renaming a directory
  itself is taken to fail as well.
\<close>

datatype node = File string | Dir nat | Special nat

type_synonym fs = "(string \<times> node) list"

definition path_exists :: "fs \<Rightarrow> string \<Rightarrow> bool" where
  "path_exists fs p = (map_of fs p \<noteq> None)"

definition isfile :: "fs \<Rightarrow> string \<Rightarrow> bool" where
  "isfile fs p = (case map_of fs p of Some (File c) \<Rightarrow> True | _ \<Rightarrow> False)"

definition isdir :: "fs \<Rightarrow> string \<Rightarrow> bool" where
  "isdir fs p = (case map_of fs p of Some (Dir n) \<Rightarrow> True | _ \<Rightarrow> False)"

definition getsize :: "fs \<Rightarrow> string \<Rightarrow> error + nat" where
  "getsize fs p =
     (case map_of fs p of
        None \<Rightarrow> Inl OSError
      | Some (File c) \<Rightarrow> Inr (length c)
      | Some (Dir n) \<Rightarrow> Inr n
      | Some (Special n) \<Rightarrow> Inr n)"

definition basename :: "string \<Rightarrow> string" where
  "basename p = rev (takeWhile (\<lambda>c. c \<noteq> CHR ''/'') (rev p))"

definition dirname :: "string \<Rightarrow> string" where
  "dirname p = rev (drop 1 (dropWhile (\<lambda>c. c \<noteq> CHR ''/'') (rev p)))"

definition lies_under :: "string \<Rightarrow> string \<Rightarrow> bool" where
  "lies_under d p = (prefix (d @ ''/'') p \<and> p \<noteq> d @ ''/'')"

text \<open>A file name against a pattern of literal characters, \<^verbatim>\<open>*\<close> and \<^verbatim>\<open>?\<close>.\<close>

fun fnmatch :: "string \<Rightarrow> string \<Rightarrow> bool" where
  "fnmatch [] name = (name = [])"
| "fnmatch (p # ps) [] = (p = CHR ''*'' \<and> fnmatch ps [])"
| "fnmatch (p # ps) (c # cs) =
     (if p = CHR ''*'' then fnmatch ps (c # cs) \<or> fnmatch (p # ps) cs
      else (p = CHR ''?'' \<or> p = c) \<and> fnmatch ps cs)"

text \<open>
  \<^verbatim>\<open>Path(d).glob("**/" + pattern)\<close>: every path under \<open>d\<close>, at any depth, whose last
  component matches; directories are among them when their name matches.
\<close>

definition glob_rec :: "fs \<Rightarrow> string \<Rightarrow> string \<Rightarrow> string list" where
  "glob_rec fs d pattern = filter (\<lambda>p. lies_under d p \<and> fnmatch pattern (basename p)) (map fst fs)"

text \<open>Opening a file for appending creates it when its directory exists.\<close>

definition append_file :: "fs \<Rightarrow> string \<Rightarrow> string \<Rightarrow> fs option" where
  "append_file fs p text =
     (case map_of fs p of
        Some (File c) \<Rightarrow> Some (AList.update p (File (c @ text)) fs)
      | Some _ \<Rightarrow> None
      | None \<Rightarrow>
          (if dirname p = [] \<or> isdir fs (dirname p) then Some (AList.update p (File text) fs)
           else None))"

definition remove :: "fs \<Rightarrow> string \<Rightarrow> fs option" where
  "remove fs p =
     (case map_of fs p of
        None \<Rightarrow> None
      | Some (Dir n) \<Rightarrow> None
      | Some _ \<Rightarrow> Some (AList.delete p fs))"

definition rename :: "fs \<Rightarrow> string \<Rightarrow> string \<Rightarrow> fs option" where
  "rename fs src dst =
     (case map_of fs src of
        None \<Rightarrow> None
      | Some (Dir n) \<Rightarrow> None
      | Some nd \<Rightarrow>
          (case map_of fs dst of
             Some (Dir n) \<Rightarrow> None
           | _ \<Rightarrow> Some (AList.update dst nd (AList.delete src fs))))"

text \<open>\<^verbatim>\<open>readlines()\<close>: the text cut after each newline, the terminators kept.\<close>

fun lines_acc :: "string \<Rightarrow> string \<Rightarrow> string list" where
  "lines_acc cur [] = (if cur = [] then [] else [cur])"
| "lines_acc cur (c # s) =
     (if c = CHR 0x0A then (cur @ [c]) # lines_acc [] s else lines_acc (cur @ [c]) s)"

definition readlines_bytes :: "string \<Rightarrow> string list" where
  "readlines_bytes s = lines_acc [] s"

text \<open>
  In text mode the default newline handling turns \<^verbatim>\<open>\r\n\<close> and a lone \<^verbatim>\<open>\r\<close> into
  \<^verbatim>\<open>\n\<close> before the text is cut into lines.
\<close>

fun universal_newlines :: "string \<Rightarrow> string" where
  "universal_newlines [] = []"
| "universal_newlines [c] = (if c = CHR 0x0D then [CHR 0x0A] else [c])"
| "universal_newlines (c # d # s) =
     (if c = CHR 0x0D \<and> d = CHR 0x0A then CHR 0x0A # universal_newlines s
      else if c = CHR 0x0D then CHR 0x0A # universal_newlines (d # s)
      else c # universal_newlines (d # s))"

definition readlines_text :: "string \<Rightarrow> string list" where
  "readlines_text s = lines_acc [] (universal_newlines s)"

text \<open>\<^verbatim>\<open>str.strip()\<close>: the whitespace at both ends removed.\<close>

definition py_strip :: "string \<Rightarrow> string" where
  "py_strip s = rev (dropWhile py_isspace (rev (dropWhile py_isspace s)))"

text \<open>\<^verbatim>\<open>str(i)\<close> for a natural number.\<close>

fun str_nat :: "nat \<Rightarrow> string" where
  "str_nat n =
     (if n < 10 then [char_of (48 + n)] else str_nat (n div 10) @ [char_of (48 + n mod 10)])"

declare str_nat.simps [simp del]

section \<open>File watcher\<close>

text \<open>
  \<open>watched_files\<close> is the dictionary from paths to last positions, in insertion order.
  A handler is a value of type \<open>'h\<close>; what the watcher does with the handlers is recorded
  as a trace of events: \<open>Read p a b\<close> is the read of file \<open>p\<close> from offset \<open>a\<close> to its
  end at size \<open>b\<close>, \<open>Call h p line\<close> the call \<^verbatim>\<open>handler(file_path, line)\<close>. The
  exception of a handler is caught around each call and changes neither the calls that
  follow nor the positions.
\<close>

record 'h file_watcher =
  watched_files :: "(string \<times> nat) list"
  handlers :: "'h list"
  running :: bool

datatype 'h event = Read string nat nat | Call 'h string string

definition FileWatcher :: "'h file_watcher" where
  "FileWatcher = \<lparr>watched_files = [], handlers = [], running = False\<rparr>"

definition add_handler :: "'h file_watcher \<Rightarrow> 'h \<Rightarrow> 'h file_watcher" where
  "add_handler w h = w\<lparr>handlers := handlers w @ [h]\<rparr>"

definition watch_file :: "fs \<Rightarrow> 'h file_watcher \<Rightarrow> string \<Rightarrow> 'h file_watcher" where
  "watch_file fs w path =
     (if path_exists fs path
      then (case getsize fs path of
              Inr n \<Rightarrow> w\<lparr>watched_files := AList.update path n (watched_files w)\<rparr>
            | Inl err \<Rightarrow> w)
      else w)"

definition watch_directory :: "fs \<Rightarrow> 'h file_watcher \<Rightarrow> string \<Rightarrow> string \<Rightarrow> 'h file_watcher" where
  "watch_directory fs w dir_path pattern =
     (if path_exists fs dir_path \<and> isdir fs dir_path
      then foldl (watch_file fs) w (glob_rec fs dir_path pattern)
      else w)"

definition start_watcher :: "'h file_watcher \<Rightarrow> 'h file_watcher" where
  "start_watcher w = (if \<not> running w then w\<lparr>running := True\<rparr> else w)"

definition stop_watcher :: "'h file_watcher \<Rightarrow> 'h file_watcher" where
  "stop_watcher w = w\<lparr>running := False\<rparr>"

text \<open>The body of the loop over \<^verbatim>\<open>new_lines\<close> for one line.\<close>

definition dispatch_line :: "'h list \<Rightarrow> string \<Rightarrow> string \<Rightarrow> 'h event list" where
  "dispatch_line hs path raw =
     (let line = py_strip raw
      in if line \<noteq> [] then map (\<lambda>h. Call h path line) hs else [])"

text \<open>
  The body of the loop over \<^verbatim>\<open>files_to_check\<close> for one file: the new position, if the
  dictionary is updated, and the events. Opening anything but a regular file raises,
  which the \<^verbatim>\<open>except\<close> around the body catches before the position is updated.
\<close>

definition check_file :: "fs \<Rightarrow> 'h list \<Rightarrow> string \<times> nat \<Rightarrow> nat option \<times> 'h event list" where
  "check_file fs hs item =
     (case item of (path, last_position) \<Rightarrow>
        if path_exists fs path
        then (case getsize fs path of
                Inl err \<Rightarrow> (None, [])
              | Inr current_size \<Rightarrow>
                  if current_size > last_position
                  then (case map_of fs path of
                          Some (File content) \<Rightarrow>
                            (Some current_size,
                             Read path last_position current_size
                               # concat (map (dispatch_line hs path)
                                   (readlines_text (drop last_position content))))
                        | _ \<Rightarrow> (None, []))
                  else (None, []))
        else (None, []))"

text \<open>
  One iteration of \<^verbatim>\<open>_watch_loop\<close> over a file system that does not change meanwhile:
  the files of the snapshot are checked in order.
\<close>

fun check_files :: "fs \<Rightarrow> 'h list \<Rightarrow> (string \<times> nat) list \<Rightarrow> (string \<times> nat) list
                     \<Rightarrow> (string \<times> nat) list \<times> 'h event list" where
  "check_files fs hs [] watched = (watched, [])"
| "check_files fs hs (item # items) watched =
     (case check_file fs hs item of
        (upd, evs) \<Rightarrow>
          (let watched' = (case upd of None \<Rightarrow> watched
                           | Some n \<Rightarrow> AList.update (fst item) n watched)
           in (case check_files fs hs items watched' of
                 (watched'', evs') \<Rightarrow> (watched'', evs @ evs'))))"

definition poll_once :: "fs \<Rightarrow> 'h file_watcher \<Rightarrow> 'h file_watcher \<times> 'h event list" where
  "poll_once fs w =
     (case check_files fs (handlers w) (watched_files w) (watched_files w) of
        (watched', evs) \<Rightarrow> (w\<lparr>watched_files := watched'\<rparr>, evs))"

section \<open>File storage\<close>

text \<open>
  \<open>dumps e\<close> is \<^verbatim>\<open>json.dumps(entry.to_dict())\<close>; \<open>loads line\<close> is the entry that the body
  of the inner \<^verbatim>\<open>try\<close> of \<^verbatim>\<open>retrieve\<close> builds from one line, \<open>None\<close> when that body
  raises. Both belong to the JSON library and are parameters.
\<close>

record codec =
  dumps :: "entry \<Rightarrow> string"
  loads :: "string \<Rightarrow> entry option"

record file_storage =
  log_file :: string
  max_size :: nat
  backup_count :: nat

definition FileStorage :: "string \<Rightarrow> file_storage" where
  "FileStorage path = \<lparr>log_file = path, max_size = 10 * 1024 * 1024, backup_count = 5\<rparr>"

text \<open>Every exception of \<^verbatim>\<open>_rotate\<close> is caught where it arises.\<close>

definition rotate_step :: "file_storage \<Rightarrow> fs \<Rightarrow> nat \<Rightarrow> fs" where
  "rotate_step cfg fs i =
     (let old_name = log_file cfg @ ''.'' @ str_nat i;
          new_name = log_file cfg @ ''.'' @ str_nat (i + 1)
      in if path_exists fs old_name
         then (let fs1 = (if path_exists fs new_name
                          then (case remove fs new_name of Some fs' \<Rightarrow> fs' | None \<Rightarrow> fs)
                          else fs)
               in (case rename fs1 old_name new_name of Some fs' \<Rightarrow> fs' | None \<Rightarrow> fs1))
         else fs)"

definition rotate_logs :: "file_storage \<Rightarrow> fs \<Rightarrow> fs" where
  "rotate_logs cfg fs =
     (let fs1 = foldl (rotate_step cfg) fs (rev [1 ..< backup_count cfg])
      in (case rename fs1 (log_file cfg) (log_file cfg @ ''.1'') of
            Some fs' \<Rightarrow> fs' | None \<Rightarrow> fs1))"

definition file_store :: "codec \<Rightarrow> file_storage \<Rightarrow> fs \<Rightarrow> entry \<Rightarrow> fs" where
  "file_store cd cfg fs e =
     (let fs1 = (if path_exists fs (log_file cfg)
                 then (case getsize fs (log_file cfg) of
                         Inr n \<Rightarrow> if n > max_size cfg then rotate_logs cfg fs else fs
                       | Inl err \<Rightarrow> fs)
                 else fs)
      in (case append_file fs1 (log_file cfg) (dumps cd e @ [CHR 0x0A]) of
            Some fs2 \<Rightarrow> fs2
          | None \<Rightarrow> fs1))"

text \<open>
  \<^verbatim>\<open>_matches_filters\<close>, with the short-circuit order of its three tests.
\<close>

definition matches_filters :: "filters \<Rightarrow> entry \<Rightarrow> error + bool" where
  "matches_filters f e =
     (if truthy (filters_get f ''level'') \<and> PStr (level e) \<noteq> filters_get f ''level'' then Inr False
      else if truthy (filters_get f ''search'')
      then (case filters_get f ''search'' of
              PStr s \<Rightarrow>
                if \<not> sublist (py_lower s) (py_lower (message e)) then Inr False
                else Inr (\<not> (truthy (filters_get f ''file_path'') \<and>
                      (case file_path e of None \<Rightarrow> PNone | Some p \<Rightarrow> PStr p)
                        \<noteq> filters_get f ''file_path''))
            | _ \<Rightarrow> Inl AttributeError)
      else Inr (\<not> (truthy (filters_get f ''file_path'') \<and>
              (case file_path e of None \<Rightarrow> PNone | Some p \<Rightarrow> PStr p)
                \<noteq> filters_get f ''file_path'')))"

text \<open>
  The slice \<^verbatim>\<open>lines[-limit * 2:]\<close>: the last \<open>2 * limit\<close> lines for a positive limit,
  every line for the limit 0, and all but the first \<open>- 2 * limit\<close> lines for a negative
  one.
\<close>

definition tail_slice :: "int \<Rightarrow> 'a list \<Rightarrow> 'a list" where
  "tail_slice limit ls =
     (let k = - limit * 2
      in if k < 0 then drop (length ls - nat (- k)) ls else drop (nat k) ls)"

text \<open>
  The loop over \<^verbatim>\<open>reversed(lines)\<close>: a line whose decoding or filtering raises is
  skipped.
\<close>

fun file_retrieve_loop :: "codec \<Rightarrow> filters \<Rightarrow> int \<Rightarrow> string list \<Rightarrow> entry list \<Rightarrow> entry list" where
  "file_retrieve_loop cd f limit [] results = results"
| "file_retrieve_loop cd f limit (line # ls) results =
     (case loads cd line of
        None \<Rightarrow> file_retrieve_loop cd f limit ls results
      | Some e \<Rightarrow>
          (case matches_filters f e of
             Inl err \<Rightarrow> file_retrieve_loop cd f limit ls results
           | Inr False \<Rightarrow> file_retrieve_loop cd f limit ls results
           | Inr True \<Rightarrow>
               (if int (length (results @ [e])) \<ge> limit then results @ [e]
                else file_retrieve_loop cd f limit ls (results @ [e]))))"

text \<open>
  What \<^verbatim>\<open>retrieve\<close> does with the lines it has read; a file that cannot be opened for
  reading gives the empty list.
\<close>

definition retrieve_lines :: "codec \<Rightarrow> filters \<Rightarrow> int \<Rightarrow> string list \<Rightarrow> entry list" where
  "retrieve_lines cd f limit ls = file_retrieve_loop cd f limit (rev (tail_slice limit ls)) []"

definition file_retrieve :: "codec \<Rightarrow> file_storage \<Rightarrow> fs \<Rightarrow> filters \<Rightarrow> int \<Rightarrow> entry list" where
  "file_retrieve cd cfg fs f limit =
     (if \<not> path_exists fs (log_file cfg) then []
      else (case map_of fs (log_file cfg) of
              Some (File content) \<Rightarrow> retrieve_lines cd f limit (readlines_bytes content)
            | _ \<Rightarrow> []))"

section \<open>The logger\<close>

datatype storage = Memory memory_storage | OnFile file_storage

definition storage_store :: "codec \<Rightarrow> storage \<Rightarrow> fs \<Rightarrow> entry \<Rightarrow> storage \<times> fs" where
  "storage_store cd st fs e =
     (case st of
        Memory ms \<Rightarrow> (Memory (mem_store ms e), fs)
      | OnFile cfg \<Rightarrow> (OnFile cfg, file_store cd cfg fs e))"

definition storage_retrieve :: "codec \<Rightarrow> storage \<Rightarrow> fs \<Rightarrow> filters \<Rightarrow> int \<Rightarrow> error + entry list" where
  "storage_retrieve cd st fs f limit =
     (case st of
        Memory ms \<Rightarrow> mem_retrieve ms f limit
      | OnFile cfg \<Rightarrow> Inr (file_retrieve cd cfg fs f limit))"

text \<open>The one handler the logger registers with its watcher, \<^verbatim>\<open>self._handle_new_line\<close>.\<close>

datatype bound_method = handle_new_line_method

record logger =
  watcher :: "bound_method file_watcher"
  storage :: storage
  processors :: "processor list"
  stats :: stats

definition MeowLogger :: "nat \<Rightarrow> logger" where
  "MeowLogger now =
     \<lparr>watcher = add_handler FileWatcher handle_new_line_method,
      storage = Memory (MemoryStorage 10000),
      processors = default_processors,
      stats = \<lparr>total_logs = 0, by_level = Map.empty, by_pattern = Map.empty, start_time = now\<rparr>\<rparr>"

definition set_storage :: "logger \<Rightarrow> storage \<Rightarrow> logger" where
  "set_storage lg st = lg\<lparr>storage := st\<rparr>"

definition add_processor :: "logger \<Rightarrow> processor \<Rightarrow> logger" where
  "add_processor lg p = lg\<lparr>processors := processors lg @ [p]\<rparr>"

definition default_pattern :: string where
  "default_pattern = ''*.log''"

definition watch :: "fs \<Rightarrow> logger \<Rightarrow> string \<Rightarrow> error + logger" where
  "watch fs lg path =
     (if isfile fs path then Inr (lg\<lparr>watcher := watch_file fs (watcher lg) path\<rparr>)
      else if isdir fs path
      then Inr (lg\<lparr>watcher := watch_directory fs (watcher lg) path default_pattern\<rparr>)
      else Inl ValueError)"

definition start :: "logger \<Rightarrow> logger" where
  "start lg = lg\<lparr>watcher := start_watcher (watcher lg)\<rparr>"

definition stop :: "logger \<Rightarrow> logger" where
  "stop lg = lg\<lparr>watcher := stop_watcher (watcher lg)\<rparr>"

text \<open>
  \<^verbatim>\<open>_process_and_store\<close> of \<^verbatim>\<open>modular_core.py\<close>. A processor that raises ends the call
  before the statistics and the storage are touched.
\<close>

definition process_and_store :: "codec \<Rightarrow> logger \<times> fs \<Rightarrow> entry \<Rightarrow> error + logger \<times> fs" where
  "process_and_store cd world e =
     (case world of (lg, fs) \<Rightarrow>
        (case run_processors (processors lg) e of
           Inl err \<Rightarrow> Inl err
         | Inr e' \<Rightarrow>
             (case storage_store cd (storage lg) fs e' of
                (st', fs') \<Rightarrow>
                  Inr (lg\<lparr>stats := update_stats (stats lg) e', storage := st'\<rparr>, fs'))))"

text \<open>The same method in \<^verbatim>\<open>modular-core-logger.py\<close>.\<close>

definition process_and_store_core_logger ::
    "codec \<Rightarrow> logger \<times> fs \<Rightarrow> entry \<Rightarrow> error + logger \<times> fs" where
  "process_and_store_core_logger cd world e =
     (case world of (lg, fs) \<Rightarrow>
        (case run_processors_core_logger (processors lg) e of
           Inl err \<Rightarrow> Inl err
         | Inr e' \<Rightarrow>
             (case storage_store cd (storage lg) fs e' of
                (st', fs') \<Rightarrow>
                  Inr (lg\<lparr>stats := update_stats (stats lg) e', storage := st'\<rparr>, fs'))))"

text \<open>
  \<^verbatim>\<open>log(level, message, **kwargs)\<close> at the time \<open>now\<close>; the message is \<open>None\<close> or already
  the text \<^verbatim>\<open>str(message)\<close>.
\<close>

definition log_entry :: "nat \<Rightarrow> string \<Rightarrow> string option \<Rightarrow> extra \<Rightarrow> entry" where
  "log_entry now lvl msg kwargs =
     \<lparr>timestamp = now, level = py_upper lvl,
      message = (case msg of None \<Rightarrow> [] | Some m \<Rightarrow> m),
      file_path = None, line_number = None,
      extra_data = (if extra_falsy (Some kwargs) then None else Some kwargs)\<rparr>"

definition log :: "codec \<Rightarrow> logger \<times> fs \<Rightarrow> nat \<Rightarrow> string \<Rightarrow> string option \<Rightarrow> extra
                   \<Rightarrow> error + logger \<times> fs" where
  "log cd world now lvl msg kwargs = process_and_store cd world (log_entry now lvl msg kwargs)"

definition log_core_logger :: "codec \<Rightarrow> logger \<times> fs \<Rightarrow> nat \<Rightarrow> string \<Rightarrow> string \<Rightarrow> extra
                   \<Rightarrow> error + logger \<times> fs" where
  "log_core_logger cd world now lvl msg kwargs =
     process_and_store_core_logger cd world
       \<lparr>timestamp = now, level = py_upper lvl, message = msg, file_path = None,
        line_number = None,
        extra_data = (if extra_falsy (Some kwargs) then None else Some kwargs)\<rparr>"

definition new_line_entry :: "nat \<Rightarrow> string \<Rightarrow> string \<Rightarrow> entry" where
  "new_line_entry now path line =
     \<lparr>timestamp = now, level = ''INFO'', message = line, file_path = Some path,
      line_number = None, extra_data = None\<rparr>"

definition handle_new_line :: "codec \<Rightarrow> logger \<times> fs \<Rightarrow> nat \<Rightarrow> string \<Rightarrow> string
                   \<Rightarrow> error + logger \<times> fs" where
  "handle_new_line cd world now path line =
     process_and_store cd world (new_line_entry now path line)"

text \<open>\<^verbatim>\<open>get_logs(**filters)\<close> passes no limit, so that \<^verbatim>\<open>retrieve\<close> runs with its default.\<close>

definition default_limit :: int where
  "default_limit = 100"

definition get_logs :: "codec \<Rightarrow> logger \<times> fs \<Rightarrow> filters \<Rightarrow> error + entry list" where
  "get_logs cd world kwargs =
     (case world of (lg, fs) \<Rightarrow> storage_retrieve cd (storage lg) fs kwargs default_limit)"

section \<open>Engine operations\<close>

text \<open>
  The public methods of \<^verbatim>\<open>MeowLogger\<close> together with the call of its line handler by
  the watcher, as operations on the logger and the file system. An operation that
  raises leaves both as they were.
\<close>

datatype engine_op =
    OpLog nat string "string option" extra
  | OpNewLine nat string string
  | OpWatch string
  | OpSetStorage storage
  | OpAddProcessor processor
  | OpGetLogs filters
  | OpStart
  | OpStop

definition or_unchanged :: "'a \<Rightarrow> error + 'a \<Rightarrow> 'a" where
  "or_unchanged w r = (case r of Inl err \<Rightarrow> w | Inr w' \<Rightarrow> w')"

fun engine_step :: "codec \<Rightarrow> logger \<times> fs \<Rightarrow> engine_op \<Rightarrow> logger \<times> fs" where
  "engine_step cd w (OpLog now lvl msg kwargs) = or_unchanged w (log cd w now lvl msg kwargs)"
| "engine_step cd w (OpNewLine now path line) = or_unchanged w (handle_new_line cd w now path line)"
| "engine_step cd w (OpWatch path) = (or_unchanged (fst w) (watch (snd w) (fst w) path), snd w)"
| "engine_step cd w (OpSetStorage st) = (set_storage (fst w) st, snd w)"
| "engine_step cd w (OpAddProcessor p) = (add_processor (fst w) p, snd w)"
| "engine_step cd w (OpGetLogs f) = w"
| "engine_step cd w OpStart = (start (fst w), snd w)"
| "engine_step cd w OpStop = (stop (fst w), snd w)"



text \<open>A codec that writes empty records and reads none, for a logger that stores in memory.\<close>

definition no_codec :: codec where
  "no_codec = \<lparr>dumps = (\<lambda>e. []), loads = (\<lambda>line. None)\<rparr>"

definition no_kwargs :: extra where
  "no_kwargs = \<lparr>patterns = None, others = []\<rparr>"

section \<open>A sample file system\<close>

definition example_fs :: fs where
  "example_fs =
     [(''logs'', Dir 4096),
      (''logs/app.log'', File ''abc''),
      (''logs/notes.txt'', File ''x''),
      (''logs/sub'', Dir 4096),
      (''logs/sub/b.log'', File ''hello''),
      (''solo.log'', File ''12'')]"

text \<open>
  A watcher with one handler and two files: \<open>app.log\<close>, registered at offset 10 and since
  cut down to three bytes, and \<open>b.log\<close>, registered at offset 2 and since grown by the
  line \<open>hi\<close> with two leading blanks.
\<close>

definition sample_watch_fs :: fs where
  "sample_watch_fs =
     [(''app.log'', File ''abc''),
      (''b.log'', File (''x'' @ [CHR 0x0A] @ ''  hi'' @ [CHR 0x0A]))]"

definition sample_watcher :: "bound_method file_watcher" where
  "sample_watcher =
     \<lparr>watched_files = [(''app.log'', 10), (''b.log'', 2)],
      handlers = [handle_new_line_method], running = True\<rparr>"

text \<open>
  A small codec for the examples, standing in for the JSON one on entries that carry
  only a level and a message: the record of an entry is \<open>LEVEL|message\<close>, and a line
  without a bar is malformed.
\<close>

definition sample_dumps :: "entry \<Rightarrow> string" where
  "sample_dumps e = level e @ ''|'' @ message e"

definition sample_loads :: "string \<Rightarrow> entry option" where
  "sample_loads line =
     (let body = takeWhile (\<lambda>c. c \<noteq> CHR 0x0A) line
      in if dropWhile (\<lambda>c. c \<noteq> CHR ''|'') body \<noteq> []
         then Some (LogEntry 0 (takeWhile (\<lambda>c. c \<noteq> CHR ''|'') body)
                      (drop 1 (dropWhile (\<lambda>c. c \<noteq> CHR ''|'') body)))
         else None)"

definition sample_codec :: codec where
  "sample_codec = \<lparr>dumps = sample_dumps, loads = sample_loads\<rparr>"

definition sample_storage :: file_storage where
  "sample_storage = \<lparr>log_file = ''meow.log'', max_size = 20, backup_count = 2\<rparr>"

definition sample_log_fs :: "string \<Rightarrow> fs" where
  "sample_log_fs content = [(''meow.log'', File content)]"

text \<open>A logger that holds two entries in a memory storage.\<close>

definition sample_logger :: logger where
  "sample_logger =
     set_storage (MeowLogger 0)
       (Memory (mem_store_all (MemoryStorage 5) [LogEntry 1 ''INFO'' ''a'', LogEntry 2 ''INFO'' ''b'']))"

text \<open>Storing a sequence of entries into the file storage, one \<^verbatim>\<open>store\<close> call each.\<close>

definition file_store_all :: "codec \<Rightarrow> file_storage \<Rightarrow> fs \<Rightarrow> entry list \<Rightarrow> fs" where
  "file_store_all cd cfg fs es = foldl (file_store cd cfg) fs es"

text \<open>The line that \<^verbatim>\<open>store\<close> writes for an entry.\<close>

definition record_line :: "codec \<Rightarrow> entry \<Rightarrow> string" where
  "record_line cd e = dumps cd e @ [CHR 0x0A]"

text \<open>
  Notions for the statements about the file storage: every directory of the first file
  system is one of the second; the log file can be created, its directory being the
  working directory or an existing one; and the codec gives an entry back from the line
  written for it, a line that has no newline but the one that ends it.
\<close>

definition same_dirs :: "fs \<Rightarrow> fs \<Rightarrow> bool" where
  "same_dirs fs fs' = (\<forall>d. isdir fs d \<longrightarrow> isdir fs' d)"

definition parent_ok :: "file_storage \<Rightarrow> fs \<Rightarrow> bool" where
  "parent_ok cfg fs = (dirname (log_file cfg) = [] \<or> isdir fs (dirname (log_file cfg)))"

definition round_trips :: "codec \<Rightarrow> entry \<Rightarrow> bool" where
  "round_trips cd e = (loads cd (record_line cd e) = Some e \<and> CHR 0x0A \<notin> set (dumps cd e))"

section \<open>Properties of the memory storage\<close>

lemma deque_append_drop:
  "length ys \<le> C \<Longrightarrow> deque_append C ys x = drop (length (ys @ [x]) - C) (ys @ [x])"
  by (cases ys) (auto simp: deque_append_def)

lemma drop_snoc_drop:
  "drop (length (drop (length zs - C) zs @ [x]) - C) (drop (length zs - C) zs @ [x])
     = drop (length (zs @ [x]) - C) (zs @ [x])"
proof (cases "length zs < C")
  case True
  then show ?thesis by simp
next
  case False
  then have "length (drop (length zs - C) zs) = C" by simp
  then show ?thesis using False
    by (cases "C = 0") (simp_all add: Suc_diff_le drop_Suc tl_drop)
qed

lemma mem_store_all_entries:
  "length (entries ms) \<le> max_entries ms \<Longrightarrow>
   entries (mem_store_all ms xs) =
     drop (length (entries ms @ xs) - max_entries ms) (entries ms @ xs)
   \<and> max_entries (mem_store_all ms xs) = max_entries ms"
proof (induction xs rule: rev_induct)
  case Nil
  then show ?case by (simp add: mem_store_all_def)
next
  case (snoc x xs)
  let ?m = "mem_store_all ms xs"
  let ?zs = "entries ms @ xs"
  let ?C = "max_entries ms"
  have step: "mem_store_all ms (xs @ [x]) = mem_store ?m x"
    by (simp add: mem_store_all_def)
  have ih: "entries ?m = drop (length ?zs - ?C) ?zs" and mx: "max_entries ?m = ?C"
    using snoc by simp_all
  have len: "length (entries ?m) \<le> ?C"
    unfolding ih by simp
  have "entries (mem_store ?m x) = drop (length (entries ?m @ [x]) - ?C) (entries ?m @ [x])"
  proof -
    have "deque_append ?C (entries ?m) x = drop (length (entries ?m @ [x]) - ?C) (entries ?m @ [x])"
      using len by (rule deque_append_drop)
    then show ?thesis by (simp add: mem_store_def mx)
  qed
  also have "\<dots> = drop (length (?zs @ [x]) - ?C) (?zs @ [x])"
    unfolding ih by (rule drop_snoc_drop)
  finally show ?case using mx by (simp add: step mem_store_def)
qed

lemma mem_store_all_fresh:
  "entries (mem_store_all (MemoryStorage C) xs) = drop (length xs - C) xs"
  using mem_store_all_entries [of "MemoryStorage C" xs] by (simp add: MemoryStorage_def)

lemma passes_empty: "passes Map.empty e = Inr True"
  by (simp add: passes_def level_differs_def search_misses_def file_path_differs_def
      filters_get_def)

lemma retrieve_loop_all_pass:
  "\<forall>e \<in> set es. passes f e = Inr True \<Longrightarrow>
   retrieve_loop f limit es acc = Inr (acc @ take (max 1 (nat (limit - int (length acc)))) es)"
proof (induction es arbitrary: acc)
  case Nil
  then show ?case by simp
next
  case (Cons e es)
  show ?case
  proof (cases "int (length acc) + 1 \<ge> limit")
    case True
    then have "max 1 (nat (limit - int (length acc))) = 1" by simp
    with True Cons.prems show ?thesis by simp
  next
    case False
    define k where "k = nat (limit - int (length acc)) - 2"
    have k: "nat (limit - int (length acc)) = Suc (Suc k)"
      using False unfolding k_def by linarith
    then have k': "nat (limit - int (length (acc @ [e]))) = Suc k" by simp
    show ?thesis using False Cons.prems Cons.IH[of "acc @ [e]"] k k'
      by simp
  qed
qed

lemma retrieve_loop_subseq:
  "retrieve_loop f limit es acc = Inr r \<Longrightarrow> \<exists>r'. r = acc @ r' \<and> subseq r' es"
proof (induction es arbitrary: acc)
  case Nil
  then show ?case by simp
next
  case (Cons e es)
  then show ?case
    by (fastforce split: sum.splits bool.splits if_splits)
qed

lemma mem_retrieve_no_filters:
  "mem_retrieve ms Map.empty limit = Inr (take (max 1 (nat limit)) (rev (entries ms)))"
  using retrieve_loop_all_pass [of "rev (entries ms)" Map.empty limit "[]"]
  by (simp add: mem_retrieve_def passes_empty)

lemma mem_retrieve_subseq:
  "mem_retrieve ms f limit = Inr r \<Longrightarrow> subseq r (rev (entries ms))"
  using retrieve_loop_subseq [of f limit "rev (entries ms)" "[]" r]
  by (auto simp: mem_retrieve_def)

text \<open>
  Claim C5. A memory storage of capacity \<open>C\<close> that has stored \<open>N > C\<close> entries holds
  exactly the last \<open>C\<close> of them, in store order; a retrieval without filters and with a
  limit of at least \<open>C\<close> returns all of them, most recent first; and whatever the filters
  and the limit, a retrieval that returns does so with a subsequence of these \<open>C\<close>
  entries, so that none of the oldest \<open>N - C\<close> can come back.
\<close>

theorem memory_storage_keeps_last_capacity:
  assumes "length xs > C"
  shows "entries (mem_store_all (MemoryStorage C) xs) = drop (length xs - C) xs
       \<and> length (entries (mem_store_all (MemoryStorage C) xs)) = C
       \<and> (\<forall>limit. int C \<le> limit \<longrightarrow>
             mem_retrieve (mem_store_all (MemoryStorage C) xs) Map.empty limit
               = Inr (rev (drop (length xs - C) xs)))
       \<and> (\<forall>f limit r. mem_retrieve (mem_store_all (MemoryStorage C) xs) f limit = Inr r
             \<longrightarrow> subseq r (rev (drop (length xs - C) xs)))"
proof -
  let ?ms = "mem_store_all (MemoryStorage C) xs"
  have kept: "entries ?ms = drop (length xs - C) xs"
    by (rule mem_store_all_fresh)
  have len: "length (entries ?ms) = C"
    using assms by (simp add: kept)
  have all: "mem_retrieve ?ms Map.empty limit = Inr (rev (drop (length xs - C) xs))"
    if "int C \<le> limit" for limit
  proof -
    have "length (rev (entries ?ms)) \<le> max 1 (nat limit)"
      using that len by simp
    then have "take (max 1 (nat limit)) (rev (entries ?ms)) = rev (entries ?ms)"
      by (rule take_all)
    then show ?thesis by (simp add: mem_retrieve_no_filters kept)
  qed
  have sub: "subseq r (rev (drop (length xs - C) xs))"
    if "mem_retrieve ?ms f limit = Inr r" for f limit r
    using mem_retrieve_subseq [OF that] by (simp add: kept)
  show ?thesis using kept len all sub by blast
qed

theorem memory_storage_keeps_last_capacity_witness:
  "length [LogEntry 1 ''INFO'' ''a'', LogEntry 2 ''INFO'' ''b'', LogEntry 3 ''INFO'' ''c''] > 2
   \<and> entries (mem_store_all (MemoryStorage 2)
         [LogEntry 1 ''INFO'' ''a'', LogEntry 2 ''INFO'' ''b'', LogEntry 3 ''INFO'' ''c''])
       = [LogEntry 2 ''INFO'' ''b'', LogEntry 3 ''INFO'' ''c'']
   \<and> int 2 \<le> 2
   \<and> mem_retrieve (mem_store_all (MemoryStorage 2)
         [LogEntry 1 ''INFO'' ''a'', LogEntry 2 ''INFO'' ''b'', LogEntry 3 ''INFO'' ''c''])
         Map.empty 2
       = Inr [LogEntry 3 ''INFO'' ''c'', LogEntry 2 ''INFO'' ''b'']"
proof -
  let ?xs = "[LogEntry 1 ''INFO'' ''a'', LogEntry 2 ''INFO'' ''b'', LogEntry 3 ''INFO'' ''c'']"
  have h: "length ?xs > 2" by simp
  have le: "int 2 \<le> 2" by simp
  from memory_storage_keeps_last_capacity [OF h]
  have a: "entries (mem_store_all (MemoryStorage 2) ?xs) = drop (length ?xs - 2) ?xs"
    and b: "\<forall>limit. int 2 \<le> limit \<longrightarrow>
             mem_retrieve (mem_store_all (MemoryStorage 2) ?xs) Map.empty limit
               = Inr (rev (drop (length ?xs - 2) ?xs))"
    by blast+
  from b le have c: "mem_retrieve (mem_store_all (MemoryStorage 2) ?xs) Map.empty 2
               = Inr (rev (drop (length ?xs - 2) ?xs))" by blast
  show ?thesis using a c h by simp
qed

section \<open>Properties of the level parser\<close>








lemma ord_lbr: "ord CHR ''['' = 91" and ord_rbr: "ord CHR '']'' = 93" and ord_colon: "ord CHR '':'' = 58"
  by (simp_all add: ord_def)



lemma same_char_False [simp]: "same_char False a c \<longleftrightarrow> c = a"
  by (auto simp: same_char_def)




























section \<open>Properties of the pipeline and the statistics\<close>

lemma level_set_patterns [simp]: "level (set_patterns ps e) = level e"
  by (simp add: set_patterns_def Let_def)

lemma apply_level_cases:
  "level (apply_level l e) = (if level e = ''INFO'' \<or> level e = ''DEBUG'' then l else level e)"
  by (simp add: apply_level_def)

lemma apply_result_level:
  "level (apply_result r e) \<noteq> level e \<Longrightarrow> level e = ''INFO'' \<or> level e = ''DEBUG''"
  by (auto simp: apply_result_def apply_level_def Let_def split: option.splits if_splits)

lemma apply_result_keeps_explicit:
  "level e \<noteq> ''INFO'' \<Longrightarrow> level e \<noteq> ''DEBUG'' \<Longrightarrow> level (apply_result r e) = level e"
  using apply_result_level by blast

lemma run_processors_keeps_explicit:
  "level e \<noteq> ''INFO'' \<Longrightarrow> level e \<noteq> ''DEBUG'' \<Longrightarrow> run_processors ps e = Inr e' \<Longrightarrow> level e' = level e"
proof (induction ps arbitrary: e)
  case Nil
  then show ?case by simp
next
  case (Cons p ps)
  from Cons.prems(3) obtain r where r: "p e = Inr r" and rest: "run_processors ps (apply_result r e) = Inr e'"
    by (auto split: sum.splits)
  have l: "level (apply_result r e) = level e"
    using Cons.prems(1,2) by (rule apply_result_keeps_explicit)
  from Cons.IH [OF _ _ rest] l Cons.prems(1,2) show ?case by simp
qed



lemma process_and_store_Inl:
  "process_and_store cd (lg, fs) e = Inl err \<Longrightarrow> run_processors (processors lg) e = Inl err"
  by (auto simp: process_and_store_def split: sum.splits prod.splits)






lemma update_stats_start: "start_time (update_stats st e) = start_time st"
  by (simp add: update_stats_def)









lemma message_apply_result [simp]: "message (apply_result r e) = message e"
  by (simp add: apply_result_def apply_level_def set_patterns_def Let_def split: option.splits)




text \<open>
  In \<^verbatim>\<open>modular_core.py\<close> a result changes the level of an entry only when the entry is at
  \<open>INFO\<close> or \<open>DEBUG\<close>, so that an entry created at any other level leaves the pipeline,
  whatever its processors, at the level it was created with.
\<close>

lemma explicit_level_is_kept:
  "(level (apply_result r e) \<noteq> level e \<longrightarrow> level e = ''INFO'' \<or> level e = ''DEBUG'')
   \<and> (level e \<noteq> ''INFO'' \<longrightarrow> level e \<noteq> ''DEBUG'' \<longrightarrow>
        (\<forall>e'. run_processors ps e = Inr e' \<longrightarrow> level e' = level e))"
  using apply_result_level [of r e] run_processors_keeps_explicit [of e ps] by blast

text \<open>
  Claim C2. The copy of the pipeline in \<^verbatim>\<open>modular-core-logger.py\<close> assigns the level of
  a result without the test: its own example call \<^verbatim>\<open>logger.log("ERROR", "Cat knocked
  over the server!")\<close> on a fresh logger stores one entry, and that entry is at \<open>INFO\<close>,
  the default of the level parser, not at the \<open>ERROR\<close> it was created with.
\<close>

theorem core_logger_overwrites_explicit_level:
  "(case log_core_logger no_codec (MeowLogger 0, []) 1 ''ERROR'' ''Cat knocked over the server!''
           no_kwargs of
      Inr w \<Rightarrow> get_logs no_codec w Map.empty
                 = Inr [LogEntry 1 ''INFO'' ''Cat knocked over the server!'']
    | Inl err \<Rightarrow> False)"
  by code_simp





section \<open>Properties of \<open>watch\<close>\<close>

lemma map_of_in_keys: "q \<in> set (map fst al) \<Longrightarrow> map_of al q \<noteq> None"
  by (induction al) auto

lemma path_exists_keys: "path_exists fs q \<longleftrightarrow> q \<in> fst ` set fs"
  by (simp add: path_exists_def map_of_eq_None_iff)

lemma getsize_exists: "path_exists fs q \<Longrightarrow> \<exists>n. getsize fs q = Inr n"
  by (auto simp: path_exists_def getsize_def split: option.splits node.splits)

lemma watch_file_exists:
  "getsize fs q = Inr n \<Longrightarrow>
   watch_file fs w q = w\<lparr>watched_files := AList.update q n (watched_files w)\<rparr>"
  by (auto simp: watch_file_def getsize_def path_exists_def split: option.splits)

lemma watch_file_other_fields:
  "handlers (watch_file fs w q) = handlers w \<and> running (watch_file fs w q) = running w"
  by (simp add: watch_file_def split: sum.splits)

lemma foldl_watch_file:
  "\<forall>q \<in> set qs. path_exists fs q \<Longrightarrow>
   map_of (watched_files (foldl (watch_file fs) w qs)) q =
     (if q \<in> set qs then (case getsize fs q of Inr n \<Rightarrow> Some n | Inl err \<Rightarrow> None)
      else map_of (watched_files w) q)"
proof (induction qs rule: rev_induct)
  case Nil
  show ?case by simp
next
  case (snoc x qs)
  from snoc.prems have "path_exists fs x" by simp
  then obtain n where n: "getsize fs x = Inr n" using getsize_exists by blast
  show ?case using snoc n
    by (simp add: watch_file_exists update_conv')
qed

lemma fnmatch_literal:
  "CHR ''*'' \<notin> set ps \<Longrightarrow> CHR ''?'' \<notin> set ps \<Longrightarrow> fnmatch ps name = (name = ps)"
  by (induction ps name rule: fnmatch.induct) auto

lemma fnmatch_star_literal:
  "CHR ''*'' \<notin> set ps \<Longrightarrow> CHR ''?'' \<notin> set ps \<Longrightarrow> fnmatch (CHR ''*'' # ps) name = suffix ps name"
proof (induction name)
  case Nil
  then show ?case by (auto simp: fnmatch_literal)
next
  case (Cons c cs)
  then show ?case
    by (auto simp: fnmatch_literal suffix_Cons)
qed

lemma fnmatch_log: "fnmatch default_pattern name = suffix ''.log'' name"
  unfolding default_pattern_def by (rule fnmatch_star_literal [of "''.log''", simplified])

lemma glob_rec_set:
  "set (glob_rec fs d default_pattern) =
     {q \<in> set (map fst fs). lies_under d q \<and> suffix ''.log'' (basename q)}"
  by (auto simp: glob_rec_def fnmatch_log)

lemma watch_Inl: "watch fs lg path = Inl err \<Longrightarrow> err = ValueError \<and> \<not> isfile fs path \<and> \<not> isdir fs path"
  by (auto simp: watch_def split: if_splits)

text \<open>
  Claim C9. \<^verbatim>\<open>watch(path)\<close> raises exactly when the path is neither a regular file nor
  a directory, and what it raises is \<^verbatim>\<open>ValueError\<close>; the logger, and with it the watched
  files, is then as before. For a regular file the path is registered at the size of the
  file. For a directory every path of the file system that lies under it and whose name
  ends in \<open>.log\<close> is registered at its size at the time of the call, and no other
  registration changes.
\<close>

theorem watch_accepts_files_and_directories:
  "((\<exists>err. watch fs lg path = Inl err) \<longleftrightarrow> \<not> isfile fs path \<and> \<not> isdir fs path)
   \<and> (\<forall>err. watch fs lg path = Inl err \<longrightarrow>
         err = ValueError \<and> engine_step cd (lg, fs) (OpWatch path) = (lg, fs))
   \<and> (\<forall>content. map_of fs path = Some (File content) \<longrightarrow>
        (\<exists>lg'. watch fs lg path = Inr lg'
           \<and> map_of (watched_files (watcher lg'))
               = (map_of (watched_files (watcher lg)))(path \<mapsto> length content)))
   \<and> (isdir fs path \<longrightarrow>
        (\<exists>lg'. watch fs lg path = Inr lg'
           \<and> (\<forall>q. map_of (watched_files (watcher lg')) q =
                (if q \<in> set (map fst fs) \<and> lies_under path q \<and> suffix ''.log'' (basename q)
                 then (case getsize fs q of Inr n \<Rightarrow> Some n | Inl err \<Rightarrow> None)
                 else map_of (watched_files (watcher lg)) q))))"
proof (intro conjI allI impI)
  show "(\<exists>err. watch fs lg path = Inl err) \<longleftrightarrow> \<not> isfile fs path \<and> \<not> isdir fs path"
    by (auto simp: watch_def)
next
  fix err assume "watch fs lg path = Inl err"
  then show "err = ValueError" by (simp add: watch_Inl)
next
  fix err assume "watch fs lg path = Inl err"
  then show "engine_step cd (lg, fs) (OpWatch path) = (lg, fs)"
    by (simp add: or_unchanged_def)
next
  fix content assume f: "map_of fs path = Some (File content)"
  then have "isfile fs path" and "getsize fs path = Inr (length content)"
    by (simp_all add: isfile_def getsize_def)
  then show "\<exists>lg'. watch fs lg path = Inr lg'
           \<and> map_of (watched_files (watcher lg'))
               = (map_of (watched_files (watcher lg)))(path \<mapsto> length content)"
    by (simp add: watch_def watch_file_exists update_conv')
next
  assume d: "isdir fs path"
  then have nf: "\<not> isfile fs path" and ex: "path_exists fs path"
    by (auto simp: isdir_def isfile_def path_exists_def split: option.splits node.splits)
  let ?qs = "glob_rec fs path default_pattern"
  have all: "\<forall>q \<in> set ?qs. path_exists fs q"
    by (auto simp: glob_rec_def path_exists_keys intro: rev_image_eqI)
  have "watch fs lg path = Inr (lg\<lparr>watcher := foldl (watch_file fs) (watcher lg) ?qs\<rparr>)"
    using d nf ex by (simp add: watch_def watch_directory_def)
  moreover have "map_of (watched_files (foldl (watch_file fs) (watcher lg) ?qs)) q =
                (if q \<in> set (map fst fs) \<and> lies_under path q \<and> suffix ''.log'' (basename q)
                 then (case getsize fs q of Inr n \<Rightarrow> Some n | Inl err \<Rightarrow> None)
                 else map_of (watched_files (watcher lg)) q)" for q
    using foldl_watch_file [OF all, of "watcher lg" q] glob_rec_set [of fs path]
    by (simp del: set_map)
  ultimately show "\<exists>lg'. watch fs lg path = Inr lg'
           \<and> (\<forall>q. map_of (watched_files (watcher lg')) q =
                (if q \<in> set (map fst fs) \<and> lies_under path q \<and> suffix ''.log'' (basename q)
                 then (case getsize fs q of Inr n \<Rightarrow> Some n | Inl err \<Rightarrow> None)
                 else map_of (watched_files (watcher lg)) q))"
    by simp
qed

lemma example_fs_facts:
  "\<not> isfile example_fs ''nope''" "\<not> isdir example_fs ''nope''"
  "map_of example_fs ''solo.log'' = Some (File ''12'')"
  "isdir example_fs ''logs''"
  "''logs/sub/b.log'' \<in> set (map fst example_fs)"
  "lies_under ''logs'' ''logs/sub/b.log''" "suffix ''.log'' (basename ''logs/sub/b.log'')"
  "getsize example_fs ''logs/sub/b.log'' = Inr 5"
  "\<not> suffix ''.log'' (basename ''logs/notes.txt'')"
  "\<not> lies_under ''logs'' ''solo.log''"
  by code_simp+

theorem watch_accepts_files_and_directories_witness:
  "\<not> isfile example_fs ''nope'' \<and> \<not> isdir example_fs ''nope''
   \<and> watch example_fs (MeowLogger 0) ''nope'' = Inl ValueError
   \<and> engine_step no_codec (MeowLogger 0, example_fs) (OpWatch ''nope'') = (MeowLogger 0, example_fs)
   \<and> map_of example_fs ''solo.log'' = Some (File ''12'')
   \<and> (\<exists>lg'. watch example_fs (MeowLogger 0) ''solo.log'' = Inr lg'
         \<and> map_of (watched_files (watcher lg')) ''solo.log'' = Some 2)
   \<and> isdir example_fs ''logs''
   \<and> (\<exists>lg'. watch example_fs (MeowLogger 0) ''logs'' = Inr lg'
         \<and> map_of (watched_files (watcher lg')) ''logs/sub/b.log'' = Some 5
         \<and> map_of (watched_files (watcher lg')) ''logs/notes.txt'' = None
         \<and> map_of (watched_files (watcher lg')) ''solo.log'' = None)"
proof -
  let ?lg = "MeowLogger 0"
  have w0: "map_of (watched_files (watcher ?lg)) q = None" for q
    by (simp add: MeowLogger_def add_handler_def FileWatcher_def)
  note a = watch_accepts_files_and_directories [of example_fs ?lg "''nope''" no_codec]
  note b = watch_accepts_files_and_directories [of example_fs ?lg "''solo.log''" no_codec]
  note c = watch_accepts_files_and_directories [of example_fs ?lg "''logs''" no_codec]
  from a example_fs_facts(1,2) obtain err where e: "watch example_fs ?lg ''nope'' = Inl err" by blast
  with a have e2: "err = ValueError"
    "engine_step no_codec (?lg, example_fs) (OpWatch ''nope'') = (?lg, example_fs)" by blast+
  from b example_fs_facts(3) obtain lg1 where
    l1: "watch example_fs ?lg ''solo.log'' = Inr lg1"
    "map_of (watched_files (watcher lg1)) = (map_of (watched_files (watcher ?lg)))(''solo.log'' \<mapsto> length ''12'')"
    by blast
  from c example_fs_facts(4) obtain lg2 where
    l2: "watch example_fs ?lg ''logs'' = Inr lg2"
    and m2: "\<And>q. map_of (watched_files (watcher lg2)) q =
                (if q \<in> set (map fst example_fs) \<and> lies_under ''logs'' q \<and> suffix ''.log'' (basename q)
                 then (case getsize example_fs q of Inr n \<Rightarrow> Some n | Inl err \<Rightarrow> None)
                 else map_of (watched_files (watcher ?lg)) q)"
    by blast
  have r1: "map_of (watched_files (watcher lg2)) ''logs/sub/b.log'' = Some 5"
    unfolding m2 using example_fs_facts(5-8) by (simp del: set_map)
  have r2: "map_of (watched_files (watcher lg2)) ''logs/notes.txt'' = None"
    unfolding m2 using example_fs_facts(9) by (simp add: w0 del: set_map)
  have r3: "map_of (watched_files (watcher lg2)) ''solo.log'' = None"
    unfolding m2 using example_fs_facts(10) by (simp add: w0 del: set_map)
  show ?thesis
    using e e2 l1 l2 r1 r2 r3 example_fs_facts(1-4) by simp
qed

section \<open>Properties of the file watcher\<close>

lemma check_files_events:
  "snd (check_files fs hs items watched) = concat (map (\<lambda>it. snd (check_file fs hs it)) items)"
  by (induction items arbitrary: watched) (simp_all add: split_beta Let_def)

lemma check_files_positions:
  "distinct (map fst items) \<Longrightarrow>
   map_of (fst (check_files fs hs items watched)) p =
     (case map_of items p of
        None \<Rightarrow> map_of watched p
      | Some l \<Rightarrow> (case fst (check_file fs hs (p, l)) of
                    None \<Rightarrow> map_of watched p
                  | Some n \<Rightarrow> Some n))"
proof (induction items arbitrary: watched)
  case Nil
  show ?case by simp
next
  case (Cons item items)
  obtain q l where item: "item = (q, l)" by (cases item)
  obtain upd evs where cf: "check_file fs hs (q, l) = (upd, evs)" by (cases "check_file fs hs (q, l)")
  let ?w1 = "case upd of None \<Rightarrow> watched | Some n \<Rightarrow> AList.update q n watched"
  have d: "distinct (map fst items)" and nq: "map_of items q = None"
    using Cons.prems item by (auto simp: map_of_eq_None_iff)
  have step: "fst (check_files fs hs (item # items) watched) = fst (check_files fs hs items ?w1)"
    by (simp add: item cf split_beta Let_def cong: option.case_cong)
  show ?case
  proof (cases "p = q")
    case True
    then show ?thesis
      unfolding step Cons.IH [OF d] using nq cf item
      by (simp add: update_conv' split: option.splits)
  next
    case False
    then show ?thesis
      unfolding step Cons.IH [OF d] using cf item
      by (simp add: update_conv' split: option.splits)
  qed
qed

lemma check_file_not_grown:
  "getsize fs p = Inr n \<Longrightarrow> n \<le> l \<Longrightarrow> check_file fs hs (p, l) = (None, [])"
  by (simp add: check_file_def)

lemma check_file_absent:
  "\<not> path_exists fs p \<Longrightarrow> check_file fs hs (p, l) = (None, [])"
  by (simp add: check_file_def)


lemma dispatch_line_paths:
  "ev \<in> set (dispatch_line hs p raw) \<Longrightarrow> \<exists>h line. ev = Call h p line"
  by (auto simp: dispatch_line_def Let_def split: if_splits)

lemma check_file_events:
  "ev \<in> set (snd (check_file fs hs (p, l))) \<Longrightarrow>
   (\<exists>n. ev = Read p l n \<and> l < n) \<or> (\<exists>h line. ev = Call h p line)"
  by (auto simp: check_file_def split: if_splits sum.splits option.splits node.splits
      dest: dispatch_line_paths)

lemma poll_once_events:
  "snd (poll_once fs w) =
     concat (map (\<lambda>it. snd (check_file fs (handlers w) it)) (watched_files w))"
  using check_files_events [of fs "handlers w" "watched_files w" "watched_files w"]
  by (simp add: poll_once_def split_beta)

lemma poll_once_positions:
  "distinct (map fst (watched_files w)) \<Longrightarrow>
   map_of (watched_files (fst (poll_once fs w))) p =
     (case map_of (watched_files w) p of
        None \<Rightarrow> None
      | Some l \<Rightarrow> (case fst (check_file fs (handlers w) (p, l)) of
                    None \<Rightarrow> Some l
                  | Some n \<Rightarrow> Some n))"
  using check_files_positions [of "watched_files w" fs "handlers w" "watched_files w" p]
  by (auto simp: poll_once_def split_beta split: option.splits)

lemma poll_once_event_cases:
  assumes "ev \<in> set (snd (poll_once fs w))"
  shows "\<exists>p l. (p, l) \<in> set (watched_files w) \<and> ev \<in> set (snd (check_file fs (handlers w) (p, l)))"
  using assms unfolding poll_once_events by auto











lemma sample_poll:
  "poll_once sample_watch_fs sample_watcher =
     (\<lparr>watched_files = [(''app.log'', 10), (''b.log'', 7)],
       handlers = [handle_new_line_method], running = True\<rparr>,
      [Read ''b.log'' 2 7, Call handle_new_line_method ''b.log'' ''hi''])"
  by code_simp


text \<open>
  Claim C1, as stated, fails: the poll loop has no test for a file that has become
  shorter. \<open>app.log\<close> is registered at offset 10 and now has 3 bytes; after one
  iteration its offset is still 10, not 0.
\<close>

theorem shrunken_file_offset_is_not_reset:
  "getsize sample_watch_fs ''app.log'' = Inr 3
   \<and> map_of (watched_files sample_watcher) ''app.log'' = Some 10
   \<and> (3::nat) < 10
   \<and> map_of (watched_files (fst (poll_once sample_watch_fs sample_watcher))) ''app.log'' = Some 10
   \<and> map_of (watched_files (fst (poll_once sample_watch_fs sample_watcher))) ''app.log'' \<noteq> Some 0"
  by (simp add: sample_poll) (simp add: sample_watch_fs_def sample_watcher_def getsize_def)


text \<open>
  Claim C1, amended. In an iteration of the poll loop a watched file whose size is below
  its recorded offset is not read, no handler is called for it, and its offset is left
  as it is; the loop reads a file only when its size exceeds the offset, so that every
  read starts strictly before the end of the file and none has a negative length.
\<close>

theorem shrunken_file_is_not_read:
  assumes "distinct (map fst (watched_files w))"
  shows "(\<forall>p l n. map_of (watched_files w) p = Some l \<and> getsize fs p = Inr n \<and> n < l \<longrightarrow>
            map_of (watched_files (fst (poll_once fs w))) p = Some l
            \<and> (\<forall>a b. Read p a b \<notin> set (snd (poll_once fs w)))
            \<and> (\<forall>h line. Call h p line \<notin> set (snd (poll_once fs w))))
       \<and> (\<forall>p a b. Read p a b \<in> set (snd (poll_once fs w)) \<longrightarrow> a < b)"
proof (intro conjI allI impI)
  fix p l n
  assume h: "map_of (watched_files w) p = Some l \<and> getsize fs p = Inr n \<and> n < l"
  then have cf: "check_file fs (handlers w) (p, l) = (None, [])"
    by (simp add: check_file_not_grown)
  show "map_of (watched_files (fst (poll_once fs w))) p = Some l"
    using h cf by (simp add: poll_once_positions [OF assms])
  have only: "ev \<in> set (snd (poll_once fs w)) \<Longrightarrow> ev \<noteq> Read p a b \<and> ev \<noteq> Call hh p line"
    for ev a b hh line
  proof -
    assume "ev \<in> set (snd (poll_once fs w))"
    from poll_once_event_cases [OF this] obtain q k where
      qk: "(q, k) \<in> set (watched_files w)" "ev \<in> set (snd (check_file fs (handlers w) (q, k)))"
      by blast
    from qk(1) assms have mk: "map_of (watched_files w) q = Some k" by simp
    show ?thesis
    proof (cases "q = p")
      case True
      with mk h have "k = l" by simp
      with qk(2) cf True show ?thesis by simp
    next
      case False
      with check_file_events [OF qk(2)] show ?thesis by auto
    qed
  qed
  show "Read p a b \<notin> set (snd (poll_once fs w))" for a b using only by blast
  show "Call hh p line \<notin> set (snd (poll_once fs w))" for hh line using only by blast
next
  fix p a b
  assume "Read p a b \<in> set (snd (poll_once fs w))"
  from poll_once_event_cases [OF this] obtain q k where
    "Read p a b \<in> set (snd (check_file fs (handlers w) (q, k)))" by blast
  from check_file_events [OF this] show "a < b" by auto
qed

theorem shrunken_file_is_not_read_witness:
  "distinct (map fst (watched_files sample_watcher))
   \<and> map_of (watched_files sample_watcher) ''app.log'' = Some 10
   \<and> getsize sample_watch_fs ''app.log'' = Inr 3 \<and> (3::nat) < 10
   \<and> map_of (watched_files (fst (poll_once sample_watch_fs sample_watcher))) ''app.log'' = Some 10
   \<and> Read ''app.log'' 10 3 \<notin> set (snd (poll_once sample_watch_fs sample_watcher))
   \<and> Read ''b.log'' 2 7 \<in> set (snd (poll_once sample_watch_fs sample_watcher))
   \<and> (2::nat) < 7"
proof -
  have d: "distinct (map fst (watched_files sample_watcher))"
    by (simp add: sample_watcher_def)
  have h: "map_of (watched_files sample_watcher) ''app.log'' = Some 10
           \<and> getsize sample_watch_fs ''app.log'' = Inr 3 \<and> (3::nat) < 10"
    by (simp add: sample_watcher_def sample_watch_fs_def getsize_def)
  have r: "Read ''b.log'' 2 7 \<in> set (snd (poll_once sample_watch_fs sample_watcher))"
    by (simp add: sample_poll)
  from shrunken_file_is_not_read [OF d, of sample_watch_fs] h r
  have "map_of (watched_files (fst (poll_once sample_watch_fs sample_watcher))) ''app.log'' = Some 10"
    and "Read ''app.log'' 10 3 \<notin> set (snd (poll_once sample_watch_fs sample_watcher))"
    and "(2::nat) < 7"
    by blast+
  then show ?thesis using d h r by blast
qed






section \<open>Properties of the file storage\<close>

lemma file_retrieve_loop_skips:
  "file_retrieve_loop cd f limit ls acc =
     file_retrieve_loop cd f limit (filter (\<lambda>line. loads cd line \<noteq> None) ls) acc"
  by (induction ls arbitrary: acc) (auto split: option.splits sum.splits bool.splits)

lemma tail_slice_all:
  "0 < limit \<Longrightarrow> int (length ls) \<le> 2 * limit \<Longrightarrow> tail_slice limit ls = ls"
  by (simp add: tail_slice_def Let_def mult.commute)

lemma tail_slice_positive:
  "0 < limit \<Longrightarrow> tail_slice limit ls = drop (length ls - nat (2 * limit)) ls"
  by (simp add: tail_slice_def Let_def mult.commute)

lemma retrieve_lines_window:
  "retrieve_lines cd f limit ls =
     file_retrieve_loop cd f limit
       (filter (\<lambda>line. loads cd line \<noteq> None) (rev (tail_slice limit ls))) []"
  unfolding retrieve_lines_def by (rule file_retrieve_loop_skips)

lemma retrieve_lines_whole:
  assumes "0 < limit" "int (length ls) \<le> 2 * limit"
  shows "retrieve_lines cd f limit ls =
         retrieve_lines cd f limit (filter (\<lambda>line. loads cd line \<noteq> None) ls)"
proof -
  let ?v = "\<lambda>line. loads cd line \<noteq> None"
  have "int (length (filter ?v ls)) \<le> 2 * limit"
    using assms(2) length_filter_le [of ?v ls] by linarith
  then have t: "tail_slice limit (filter ?v ls) = filter ?v ls"
    using assms(1) by (rule tail_slice_all [rotated])
  have "retrieve_lines cd f limit (filter ?v ls) = file_retrieve_loop cd f limit (rev (filter ?v ls)) []"
    by (simp only: retrieve_lines_def t)
  also have "\<dots> = file_retrieve_loop cd f limit (filter ?v (rev ls)) []"
    by (simp only: rev_filter)
  also have "\<dots> = retrieve_lines cd f limit ls"
    by (simp only: retrieve_lines_window tail_slice_all [OF assms])
  finally show ?thesis by (rule sym)
qed


text \<open>
  Claim C3, as stated, fails: \<^verbatim>\<open>retrieve\<close> reads the last \<open>2 * limit\<close> lines of the
  file whatever they hold, so that malformed lines take the place of valid ones. With
  the limit 1 a file of one valid record followed by two malformed lines gives no
  entry, and the same file without the two malformed lines gives the entry.
\<close>

theorem malformed_lines_crowd_out_valid_entries:
  "sample_loads (''garbage'' @ [CHR 0x0A]) = None
   \<and> sample_loads (''junk'' @ [CHR 0x0A]) = None
   \<and> file_retrieve sample_codec sample_storage
        (sample_log_fs (''INFO|a'' @ [CHR 0x0A] @ ''garbage'' @ [CHR 0x0A] @ ''junk'' @ [CHR 0x0A]))
        Map.empty 1 = []
   \<and> file_retrieve sample_codec sample_storage
        (sample_log_fs (''INFO|a'' @ [CHR 0x0A])) Map.empty 1 = [LogEntry 0 ''INFO'' ''a'']"
  by code_simp


text \<open>
  Claim C3, amended. \<^verbatim>\<open>retrieve\<close> never raises, and its result on the lines of a file
  is that of its loop on the valid lines among the last \<open>2 * limit\<close> lines, newest
  first: a malformed line in that window is skipped. When the whole file lies in the
  window, that is when it has at most \<open>2 * limit\<close> lines, the result is the one for
  the file with its malformed lines removed. Valid records before the window are not
  returned.
\<close>

theorem malformed_lines_are_skipped_in_the_window:
  "retrieve_lines cd f limit ls =
     file_retrieve_loop cd f limit
       (filter (\<lambda>line. loads cd line \<noteq> None) (rev (tail_slice limit ls))) []
   \<and> (0 < limit \<longrightarrow> tail_slice limit ls = drop (length ls - nat (2 * limit)) ls)
   \<and> (0 < limit \<and> int (length ls) \<le> 2 * limit \<longrightarrow>
        retrieve_lines cd f limit ls =
        retrieve_lines cd f limit (filter (\<lambda>line. loads cd line \<noteq> None) ls))
   \<and> (\<forall>c c'. map_of fs (log_file cfg) = Some (File c)
          \<and> map_of fs' (log_file cfg) = Some (File c')
          \<and> readlines_bytes c' = filter (\<lambda>line. loads cd line \<noteq> None) (readlines_bytes c)
          \<and> 0 < limit \<and> int (length (readlines_bytes c)) \<le> 2 * limit \<longrightarrow>
        file_retrieve cd cfg fs f limit = file_retrieve cd cfg fs' f limit)"
proof (intro conjI allI impI)
  show "retrieve_lines cd f limit ls =
     file_retrieve_loop cd f limit
       (filter (\<lambda>line. loads cd line \<noteq> None) (rev (tail_slice limit ls))) []"
    by (rule retrieve_lines_window)
next
  assume "0 < limit"
  then show "tail_slice limit ls = drop (length ls - nat (2 * limit)) ls"
    by (rule tail_slice_positive)
next
  assume "0 < limit \<and> int (length ls) \<le> 2 * limit"
  then show "retrieve_lines cd f limit ls =
        retrieve_lines cd f limit (filter (\<lambda>line. loads cd line \<noteq> None) ls)"
    using retrieve_lines_whole by blast
next
  fix c c'
  assume h: "map_of fs (log_file cfg) = Some (File c)
          \<and> map_of fs' (log_file cfg) = Some (File c')
          \<and> readlines_bytes c' = filter (\<lambda>line. loads cd line \<noteq> None) (readlines_bytes c)
          \<and> 0 < limit \<and> int (length (readlines_bytes c)) \<le> 2 * limit"
  then have "retrieve_lines cd f limit (readlines_bytes c) = retrieve_lines cd f limit (readlines_bytes c')"
    using retrieve_lines_whole [of limit "readlines_bytes c" cd f] by simp
  then show "file_retrieve cd cfg fs f limit = file_retrieve cd cfg fs' f limit"
    using h by (simp add: file_retrieve_def path_exists_def)
qed

lemma sample_lines:
  "readlines_bytes (''INFO|a'' @ [CHR 0x0A] @ ''garbage'' @ [CHR 0x0A] @ ''ERROR|b'' @ [CHR 0x0A])
     = [''INFO|a'' @ [CHR 0x0A], ''garbage'' @ [CHR 0x0A], ''ERROR|b'' @ [CHR 0x0A]]"
  "readlines_bytes (''INFO|a'' @ [CHR 0x0A] @ ''ERROR|b'' @ [CHR 0x0A])
     = [''INFO|a'' @ [CHR 0x0A], ''ERROR|b'' @ [CHR 0x0A]]"
  "filter (\<lambda>line. loads sample_codec line \<noteq> None)
      [''INFO|a'' @ [CHR 0x0A], ''garbage'' @ [CHR 0x0A], ''ERROR|b'' @ [CHR 0x0A]]
     = [''INFO|a'' @ [CHR 0x0A], ''ERROR|b'' @ [CHR 0x0A]]"
  by code_simp+

lemma sample_retrieve_clean:
  "file_retrieve sample_codec sample_storage
      (sample_log_fs (''INFO|a'' @ [CHR 0x0A] @ ''ERROR|b'' @ [CHR 0x0A])) Map.empty 2
     = [LogEntry 0 ''ERROR'' ''b'', LogEntry 0 ''INFO'' ''a'']"
  by code_simp

theorem malformed_lines_are_skipped_in_the_window_witness:
  "map_of (sample_log_fs (''INFO|a'' @ [CHR 0x0A] @ ''garbage'' @ [CHR 0x0A] @ ''ERROR|b'' @ [CHR 0x0A]))
       (log_file sample_storage)
     = Some (File (''INFO|a'' @ [CHR 0x0A] @ ''garbage'' @ [CHR 0x0A] @ ''ERROR|b'' @ [CHR 0x0A]))
   \<and> (0::int) < 2
   \<and> int (length (readlines_bytes
         (''INFO|a'' @ [CHR 0x0A] @ ''garbage'' @ [CHR 0x0A] @ ''ERROR|b'' @ [CHR 0x0A]))) \<le> 2 * 2
   \<and> file_retrieve sample_codec sample_storage
        (sample_log_fs (''INFO|a'' @ [CHR 0x0A] @ ''garbage'' @ [CHR 0x0A] @ ''ERROR|b'' @ [CHR 0x0A]))
        Map.empty 2
       = [LogEntry 0 ''ERROR'' ''b'', LogEntry 0 ''INFO'' ''a'']"
proof -
  let ?c = "''INFO|a'' @ [CHR 0x0A] @ ''garbage'' @ [CHR 0x0A] @ ''ERROR|b'' @ [CHR 0x0A]"
  let ?c' = "''INFO|a'' @ [CHR 0x0A] @ ''ERROR|b'' @ [CHR 0x0A]"
  have a: "map_of (sample_log_fs ?c) (log_file sample_storage) = Some (File ?c)"
    and b: "map_of (sample_log_fs ?c') (log_file sample_storage) = Some (File ?c')"
    by (simp_all add: sample_log_fs_def sample_storage_def)
  have r: "readlines_bytes ?c' = filter (\<lambda>line. loads sample_codec line \<noteq> None) (readlines_bytes ?c)"
    by (simp only: sample_lines)
  have n: "int (length (readlines_bytes ?c)) \<le> 2 * 2"
    by (simp only: sample_lines) simp
  have "file_retrieve sample_codec sample_storage (sample_log_fs ?c) Map.empty 2
      = file_retrieve sample_codec sample_storage (sample_log_fs ?c') Map.empty 2"
    using malformed_lines_are_skipped_in_the_window
      [of sample_codec Map.empty 2 "[]" "sample_log_fs ?c" sample_storage "sample_log_fs ?c'",
        THEN conjunct2, THEN conjunct2, THEN conjunct2, rule_format, of ?c ?c']
      a b r n by simp
  then show ?thesis using a n by (simp only: sample_retrieve_clean) simp
qed

section \<open>Properties of \<open>get_logs\<close>\<close>

lemma filters_get_upd_other: "k' \<noteq> k \<Longrightarrow> filters_get (kw(k \<mapsto> v)) k' = filters_get kw k'"
  by (simp add: filters_get_def)

lemma passes_ignores_key:
  "k \<noteq> ''level'' \<Longrightarrow> k \<noteq> ''search'' \<Longrightarrow> k \<noteq> ''file_path'' \<Longrightarrow>
   passes (kw(k \<mapsto> v)) e = passes kw e"
  by (simp add: passes_def level_differs_def search_misses_def file_path_differs_def
      filters_get_upd_other cong: sum.case_cong bool.case_cong)

lemma matches_filters_ignores_key:
  "k \<noteq> ''level'' \<Longrightarrow> k \<noteq> ''search'' \<Longrightarrow> k \<noteq> ''file_path'' \<Longrightarrow>
   matches_filters (kw(k \<mapsto> v)) e = matches_filters kw e"
  by (simp add: matches_filters_def filters_get_upd_other cong: pyval.case_cong if_cong)

lemma retrieve_loop_cong:
  "(\<And>e. passes f e = passes f' e) \<Longrightarrow> retrieve_loop f limit es acc = retrieve_loop f' limit es acc"
  by (induction es arbitrary: acc) (simp_all cong: sum.case_cong bool.case_cong)

lemma file_retrieve_loop_cong:
  "(\<And>e. matches_filters f e = matches_filters f' e) \<Longrightarrow>
   file_retrieve_loop cd f limit ls acc = file_retrieve_loop cd f' limit ls acc"
  by (induction ls arbitrary: acc)
     (auto split: option.splits sum.splits bool.splits)

lemma storage_retrieve_ignores_key:
  assumes "k \<noteq> ''level''" "k \<noteq> ''search''" "k \<noteq> ''file_path''"
  shows "storage_retrieve cd st fs (kw(k \<mapsto> v)) limit = storage_retrieve cd st fs kw limit"
proof (cases st)
  case (Memory ms)
  then show ?thesis
    using retrieve_loop_cong [of "kw(k \<mapsto> v)" kw, OF passes_ignores_key [OF assms]]
    by (simp add: storage_retrieve_def mem_retrieve_def)
next
  case (OnFile cfg)
  then show ?thesis
    using file_retrieve_loop_cong [of "kw(k \<mapsto> v)" kw, OF matches_filters_ignores_key [OF assms]]
    by (simp add: storage_retrieve_def file_retrieve_def retrieve_lines_def
        split: option.splits node.splits)
qed

lemma retrieve_loop_length:
  "int (length acc) < limit \<Longrightarrow> retrieve_loop f limit es acc = Inr r \<Longrightarrow> int (length r) \<le> limit"
proof (induction es arbitrary: acc)
  case Nil
  then show ?case by simp
next
  case (Cons e es)
  show ?case
  proof (cases "passes f e")
    case (Inl err)
    with Cons.prems show ?thesis by simp
  next
    case (Inr b)
    show ?thesis
    proof (cases b)
      case False
      with Inr Cons show ?thesis by simp
    next
      case True
      show ?thesis
      proof (cases "int (length (acc @ [e])) \<ge> limit")
        case t: True
        with Inr True Cons.prems show ?thesis by auto
      next
        case f: False
        then have "int (length (acc @ [e])) < limit" by simp
        moreover have "retrieve_loop f limit es (acc @ [e]) = Inr r"
          using Inr True f Cons.prems(2) by simp
        ultimately show ?thesis by (rule Cons.IH)
      qed
    qed
  qed
qed

lemma file_retrieve_loop_length:
  "int (length acc) < limit \<Longrightarrow> int (length (file_retrieve_loop cd f limit ls acc)) \<le> limit"
proof (induction ls arbitrary: acc)
  case Nil
  then show ?case by simp
next
  case (Cons line ls)
  show ?case
  proof (cases "loads cd line")
    case None
    with Cons show ?thesis by simp
  next
    case (Some e)
    show ?thesis
    proof (cases "matches_filters f e")
      case (Inl err)
      with Some Cons show ?thesis by simp
    next
      case (Inr b)
      show ?thesis
      proof (cases "b \<and> \<not> int (length (acc @ [e])) \<ge> limit")
        case True
        then have "int (length (acc @ [e])) < limit" by simp
        from Cons.IH [OF this] show ?thesis using Some Inr True by simp
      next
        case False
        then show ?thesis using Some Inr Cons by (cases b) auto
      qed
    qed
  qed
qed

lemma passes_error:
  "passes f e = Inl err \<Longrightarrow>
   err = AttributeError \<and> truthy (filters_get f ''search'') \<and> (\<forall>s. filters_get f ''search'' \<noteq> PStr s)"
  by (auto simp: passes_def search_misses_def split: if_splits sum.splits pyval.splits bool.splits)

lemma retrieve_loop_error:
  "retrieve_loop f limit es acc = Inl err \<Longrightarrow> \<exists>e. passes f e = Inl err"
proof (induction es arbitrary: acc)
  case Nil
  then show ?case by simp
next
  case (Cons e es)
  then show ?case
    by (cases "passes f e") (auto split: bool.splits if_splits)
qed

text \<open>
  Claim C10. \<^verbatim>\<open>get_logs\<close> hands all its keyword arguments to \<^verbatim>\<open>retrieve\<close> as the
  filters and passes no limit, so that the retrieval runs with the default limit 100
  and returns at most 100 entries. A key other than \<open>level\<close>, \<open>search\<close> and
  \<open>file_path\<close> has no effect on the result; in particular \<open>limit\<close> has none and does
  not bound the result. No key is rejected: the only exception is the
  \<^verbatim>\<open>AttributeError\<close> of a \<open>search\<close> value that is not a string.
\<close>

theorem get_logs_forwards_all_keywords:
  "get_logs cd (lg, fs) kw = storage_retrieve cd (storage lg) fs kw 100
   \<and> (k \<noteq> ''level'' \<and> k \<noteq> ''search'' \<and> k \<noteq> ''file_path'' \<longrightarrow>
        get_logs cd (lg, fs) (kw(k \<mapsto> v)) = get_logs cd (lg, fs) kw)
   \<and> get_logs cd (lg, fs) (kw(''limit'' \<mapsto> PInt n)) = get_logs cd (lg, fs) kw
   \<and> (\<forall>r. get_logs cd (lg, fs) kw = Inr r \<longrightarrow> length r \<le> 100)
   \<and> (\<forall>err. get_logs cd (lg, fs) kw = Inl err \<longrightarrow>
         err = AttributeError \<and> truthy (filters_get kw ''search'')
         \<and> (\<forall>s. filters_get kw ''search'' \<noteq> PStr s))"
proof (intro conjI allI impI)
  show "get_logs cd (lg, fs) kw = storage_retrieve cd (storage lg) fs kw 100"
    by (simp add: get_logs_def default_limit_def)
next
  assume "k \<noteq> ''level'' \<and> k \<noteq> ''search'' \<and> k \<noteq> ''file_path''"
  then show "get_logs cd (lg, fs) (kw(k \<mapsto> v)) = get_logs cd (lg, fs) kw"
    by (simp add: get_logs_def storage_retrieve_ignores_key)
next
  show "get_logs cd (lg, fs) (kw(''limit'' \<mapsto> PInt n)) = get_logs cd (lg, fs) kw"
    by (simp add: get_logs_def storage_retrieve_ignores_key)
next
  fix r assume h: "get_logs cd (lg, fs) kw = Inr r"
  show "length r \<le> 100"
  proof (cases "storage lg")
    case (Memory ms)
    with h have "retrieve_loop kw 100 (rev (entries ms)) [] = Inr r"
      by (simp add: get_logs_def default_limit_def storage_retrieve_def mem_retrieve_def)
    from retrieve_loop_length [OF _ this] show ?thesis by simp
  next
    case (OnFile cfg)
    have "int (length (file_retrieve_loop cd kw 100 ls [])) \<le> 100" for ls
      by (rule file_retrieve_loop_length) simp
    with h OnFile show ?thesis
      by (auto simp: get_logs_def default_limit_def storage_retrieve_def file_retrieve_def
          retrieve_lines_def split: if_splits option.splits node.splits)
  qed
next
  fix err assume h: "get_logs cd (lg, fs) kw = Inl err"
  then have "\<exists>es. retrieve_loop kw 100 es [] = Inl err"
    by (cases "storage lg")
       (auto simp: get_logs_def default_limit_def storage_retrieve_def mem_retrieve_def)
  then obtain es where "retrieve_loop kw 100 es [] = Inl err" by blast
  from retrieve_loop_error [OF this] obtain e where "passes kw e = Inl err" by blast
  from passes_error [OF this]
  show "err = AttributeError" "truthy (filters_get kw ''search'')"
    "filters_get kw ''search'' \<noteq> PStr s" for s
    by blast+
qed

lemma sample_logger_logs:
  "get_logs no_codec (sample_logger, []) Map.empty
     = Inr [LogEntry 2 ''INFO'' ''b'', LogEntry 1 ''INFO'' ''a'']"
  by code_simp

theorem get_logs_forwards_all_keywords_witness:
  "''limit'' \<noteq> ''level'' \<and> ''limit'' \<noteq> ''search'' \<and> ''limit'' \<noteq> ''file_path''
   \<and> get_logs no_codec (sample_logger, []) [''limit'' \<mapsto> PInt 1]
       = Inr [LogEntry 2 ''INFO'' ''b'', LogEntry 1 ''INFO'' ''a'']
   \<and> length [LogEntry 2 ''INFO'' ''b'', LogEntry 1 ''INFO'' ''a''] \<le> 100
   \<and> \<not> length [LogEntry 2 ''INFO'' ''b'', LogEntry 1 ''INFO'' ''a''] \<le> 1"
proof -
  have ne: "''limit'' \<noteq> ''level'' \<and> ''limit'' \<noteq> ''search'' \<and> ''limit'' \<noteq> ''file_path''"
    by simp
  note inst = get_logs_forwards_all_keywords
      [of no_codec sample_logger "[]" Map.empty "''limit''" "PInt 1" 1]
  from inst ne have "get_logs no_codec (sample_logger, []) [''limit'' \<mapsto> PInt 1]
       = get_logs no_codec (sample_logger, []) Map.empty" by blast
  then have g: "get_logs no_codec (sample_logger, []) [''limit'' \<mapsto> PInt 1]
       = Inr [LogEntry 2 ''INFO'' ''b'', LogEntry 1 ''INFO'' ''a'']"
    by (simp only: sample_logger_logs)
  from inst sample_logger_logs
  have "length [LogEntry 2 ''INFO'' ''b'', LogEntry 1 ''INFO'' ''a''] \<le> 100" by blast
  then show ?thesis using ne g by simp
qed

section \<open>Store and retrieve\<close>

lemma remove_Some:
  "remove fs p = Some fs' \<Longrightarrow>
   map_of fs' = (map_of fs)(p := None) \<and> (\<forall>n. map_of fs p \<noteq> Some (Dir n))"
  by (auto simp: remove_def delete_conv' split: option.splits node.splits)

lemma rename_Some:
  "rename fs a b = Some fs' \<Longrightarrow>
   map_of fs' = ((map_of fs)(a := None))(b := map_of fs a)
   \<and> map_of fs a \<noteq> None
   \<and> (\<forall>n. map_of fs a \<noteq> Some (Dir n)) \<and> (\<forall>n. map_of fs b \<noteq> Some (Dir n))"
  by (auto simp: rename_def update_conv' delete_conv' split: option.splits node.splits)

lemma same_dirs_refl: "same_dirs fs fs"
  by (simp add: same_dirs_def)

lemma same_dirs_trans: "same_dirs a b \<Longrightarrow> same_dirs b c \<Longrightarrow> same_dirs a c"
  by (simp add: same_dirs_def)

lemma remove_dirs: "remove fs p = Some fs' \<Longrightarrow> same_dirs fs fs'"
  by (drule remove_Some) (auto simp: same_dirs_def isdir_def split: option.splits node.splits)

lemma rename_dirs: "rename fs a b = Some fs' \<Longrightarrow> same_dirs fs fs'"
  by (drule rename_Some) (auto simp: same_dirs_def isdir_def split: option.splits node.splits)

lemma backup_name_differs: "log_file cfg @ ''.'' @ s \<noteq> log_file cfg"
  by simp

lemma rotate_step_keeps:
  "map_of (rotate_step cfg fs i) (log_file cfg) = map_of fs (log_file cfg)
   \<and> same_dirs fs (rotate_step cfg fs i)"
proof -
  let ?old = "log_file cfg @ ''.'' @ str_nat i"
  let ?new = "log_file cfg @ ''.'' @ str_nat (i + 1)"
  let ?lf = "log_file cfg"
  define fs1 where "fs1 = (if path_exists fs ?new
                          then (case remove fs ?new of Some fs' \<Rightarrow> fs' | None \<Rightarrow> fs)
                          else fs)"
  have a: "map_of fs1 ?lf = map_of fs ?lf \<and> same_dirs fs fs1"
    unfolding fs1_def
    by (auto simp: same_dirs_refl remove_dirs split: option.splits dest!: remove_Some)
  define fs2 where "fs2 = (case rename fs1 ?old ?new of Some fs' \<Rightarrow> fs' | None \<Rightarrow> fs1)"
  have b: "map_of fs2 ?lf = map_of fs1 ?lf \<and> same_dirs fs1 fs2"
    unfolding fs2_def
    by (auto simp: same_dirs_refl rename_dirs split: option.splits dest!: rename_Some)
  have "rotate_step cfg fs i = (if path_exists fs ?old then fs2 else fs)"
    unfolding rotate_step_def Let_def fs1_def fs2_def by (rule refl)
  then show ?thesis using a b by (auto simp: same_dirs_refl intro: same_dirs_trans)
qed

lemma rotate_steps_keep:
  "map_of (foldl (rotate_step cfg) fs is) (log_file cfg) = map_of fs (log_file cfg)
   \<and> same_dirs fs (foldl (rotate_step cfg) fs is)"
proof (induction "is" arbitrary: fs)
  case Nil
  show ?case by (simp add: same_dirs_refl)
next
  case (Cons i "is")
  show ?case
    using Cons [of "rotate_step cfg fs i"] rotate_step_keeps [of cfg fs i]
    by (auto intro: same_dirs_trans)
qed

lemma rotate_result:
  "same_dirs fs (rotate_logs cfg fs)
   \<and> (map_of (rotate_logs cfg fs) (log_file cfg) = map_of fs (log_file cfg)
        \<or> map_of (rotate_logs cfg fs) (log_file cfg) = None)"
proof -
  let ?fs1 = "foldl (rotate_step cfg) fs (rev [1 ..< backup_count cfg])"
  have k: "map_of ?fs1 (log_file cfg) = map_of fs (log_file cfg)" "same_dirs fs ?fs1"
    using rotate_steps_keep by blast+
  show ?thesis
  proof (cases "rename ?fs1 (log_file cfg) (log_file cfg @ ''.1'')")
    case None
    then show ?thesis using k by (simp add: rotate_logs_def Let_def)
  next
    case (Some fs')
    from rename_Some [OF Some] rename_dirs [OF Some] k
    show ?thesis using Some by (auto simp: rotate_logs_def Let_def intro: same_dirs_trans)
  qed
qed

lemma parent_ok_same_dirs: "parent_ok cfg fs \<Longrightarrow> same_dirs fs fs' \<Longrightarrow> parent_ok cfg fs'"
  by (auto simp: parent_ok_def same_dirs_def)

lemma append_file_existing:
  "map_of fs p = Some (File c) \<Longrightarrow>
   \<exists>fs'. append_file fs p t = Some fs' \<and> map_of fs' p = Some (File (c @ t)) \<and> same_dirs fs fs'"
  by (auto simp: append_file_def update_conv' same_dirs_def isdir_def)

lemma append_file_new:
  "map_of fs p = None \<Longrightarrow> dirname p = [] \<or> isdir fs (dirname p) \<Longrightarrow>
   \<exists>fs'. append_file fs p t = Some fs' \<and> map_of fs' p = Some (File t) \<and> same_dirs fs fs'"
  by (auto simp: append_file_def update_conv' same_dirs_def isdir_def)

lemma file_store_fresh:
  assumes "map_of fs (log_file cfg) = None" "parent_ok cfg fs"
  shows "map_of (file_store cd cfg fs e) (log_file cfg) = Some (File (record_line cd e))
         \<and> parent_ok cfg (file_store cd cfg fs e)"
proof -
  from append_file_new [of fs "log_file cfg" "record_line cd e"] assms
  obtain fs' where a: "append_file fs (log_file cfg) (record_line cd e) = Some fs'"
    "map_of fs' (log_file cfg) = Some (File (record_line cd e))" "same_dirs fs fs'"
    by (auto simp: parent_ok_def)
  have "file_store cd cfg fs e = fs'"
    using assms(1) a(1) by (simp add: file_store_def path_exists_def record_line_def)
  then show ?thesis using a assms(2) by (auto intro: parent_ok_same_dirs)
qed

lemma file_store_existing:
  assumes "map_of fs (log_file cfg) = Some (File c)" "parent_ok cfg fs"
  shows "(map_of (file_store cd cfg fs e) (log_file cfg) = Some (File (c @ record_line cd e))
          \<or> map_of (file_store cd cfg fs e) (log_file cfg) = Some (File (record_line cd e)))
         \<and> (length c \<le> max_size cfg \<longrightarrow>
              map_of (file_store cd cfg fs e) (log_file cfg) = Some (File (c @ record_line cd e)))
         \<and> parent_ok cfg (file_store cd cfg fs e)"
proof -
  let ?lf = "log_file cfg"
  define fs1 where "fs1 = (if length c > max_size cfg then rotate_logs cfg fs else fs)"
  have st: "file_store cd cfg fs e =
      (case append_file fs1 ?lf (record_line cd e) of Some fs2 \<Rightarrow> fs2 | None \<Rightarrow> fs1)"
    using assms(1)
    by (cases "max_size cfg < length c")
       (simp_all add: file_store_def path_exists_def getsize_def record_line_def fs1_def Let_def
          cong: option.case_cong)
  have d1: "same_dirs fs fs1" and m1: "map_of fs1 ?lf = Some (File c) \<or> map_of fs1 ?lf = None"
    and keep: "length c \<le> max_size cfg \<longrightarrow> map_of fs1 ?lf = Some (File c)"
    using rotate_result [of fs cfg] assms(1) by (auto simp: fs1_def same_dirs_refl)
  have p1: "parent_ok cfg fs1" using assms(2) d1 by (rule parent_ok_same_dirs)
  from m1 show ?thesis
  proof
    assume m: "map_of fs1 ?lf = Some (File c)"
    from append_file_existing [OF m, of "record_line cd e"]
    obtain fs' where a: "append_file fs1 ?lf (record_line cd e) = Some fs'"
      "map_of fs' ?lf = Some (File (c @ record_line cd e))" "same_dirs fs1 fs'" by blast
    then show ?thesis using st p1 by (auto intro: parent_ok_same_dirs)
  next
    assume m: "map_of fs1 ?lf = None"
    with keep have big: "\<not> length c \<le> max_size cfg" by auto
    from append_file_new [OF m, of "record_line cd e"] p1
    obtain fs' where a: "append_file fs1 ?lf (record_line cd e) = Some fs'"
      "map_of fs' ?lf = Some (File (record_line cd e))" "same_dirs fs1 fs'"
      by (auto simp: parent_ok_def)
    then show ?thesis using st p1 big by (auto intro: parent_ok_same_dirs)
  qed
qed

lemma file_store_all_snoc:
  "file_store_all cd cfg fs (xs @ [x]) = file_store cd cfg (file_store_all cd cfg fs xs) x"
  by (simp add: file_store_all_def)

lemma file_store_all_content:
  assumes "map_of fs (log_file cfg) = None" "parent_ok cfg fs"
  shows "parent_ok cfg (file_store_all cd cfg fs xs)
         \<and> (xs = [] \<longrightarrow> map_of (file_store_all cd cfg fs xs) (log_file cfg) = None)
         \<and> (xs \<noteq> [] \<longrightarrow> (\<exists>k < length xs.
               map_of (file_store_all cd cfg fs xs) (log_file cfg)
                 = Some (File (concat (map (record_line cd) (drop k xs))))))"
proof (induction xs rule: rev_induct)
  case Nil
  show ?case using assms by (simp add: file_store_all_def)
next
  case (snoc x xs)
  let ?fs = "file_store_all cd cfg fs xs"
  have p: "parent_ok cfg ?fs" using snoc by simp
  show ?case
  proof (cases "xs = []")
    case True
    then have "map_of ?fs (log_file cfg) = None" using snoc by simp
    from file_store_fresh [OF this p, of cd x] True
    show ?thesis by (simp add: file_store_all_def)
  next
    case False
    with snoc obtain k where k: "k < length xs"
      "map_of ?fs (log_file cfg) = Some (File (concat (map (record_line cd) (drop k xs))))"
      by auto
    from file_store_existing [OF k(2) p, of cd x]
    have po: "parent_ok cfg (file_store cd cfg ?fs x)"
      and c: "map_of (file_store cd cfg ?fs x) (log_file cfg)
                = Some (File (concat (map (record_line cd) (drop k xs)) @ record_line cd x))
              \<or> map_of (file_store cd cfg ?fs x) (log_file cfg) = Some (File (record_line cd x))"
      by blast+
    from c have "\<exists>j < length (xs @ [x]).
               map_of (file_store cd cfg ?fs x) (log_file cfg)
                 = Some (File (concat (map (record_line cd) (drop j (xs @ [x])))))"
    proof
      assume "map_of (file_store cd cfg ?fs x) (log_file cfg)
                = Some (File (concat (map (record_line cd) (drop k xs)) @ record_line cd x))"
      then show ?thesis using k(1) by (intro exI [of _ k]) simp
    next
      assume "map_of (file_store cd cfg ?fs x) (log_file cfg) = Some (File (record_line cd x))"
      then show ?thesis by (intro exI [of _ "length xs"]) simp
    qed
    then show ?thesis using po by (simp add: file_store_all_snoc)
  qed
qed

lemma file_store_all_no_rotation:
  assumes "map_of fs (log_file cfg) = None" "parent_ok cfg fs"
    and "length (concat (map (record_line cd) (butlast xs))) \<le> max_size cfg"
    and "xs \<noteq> []"
  shows "map_of (file_store_all cd cfg fs xs) (log_file cfg)
           = Some (File (concat (map (record_line cd) xs)))"
  using assms(3,4)
proof (induction xs rule: rev_induct)
  case Nil
  then show ?case by simp
next
  case (snoc x xs)
  let ?fs = "file_store_all cd cfg fs xs"
  have p: "parent_ok cfg ?fs" using file_store_all_content [OF assms(1,2)] by blast
  show ?case
  proof (cases "xs = []")
    case True
    then have "map_of ?fs (log_file cfg) = None" by (simp add: file_store_all_def assms(1))
    from file_store_fresh [OF this p, of cd x] True
    show ?thesis by (simp add: file_store_all_def)
  next
    case False
    have le: "length (concat (map (record_line cd) xs)) \<le> max_size cfg"
      using snoc.prems(1) by simp
    have "length (concat (map (record_line cd) (butlast xs)))
            \<le> length (concat (map (record_line cd) xs))"
      using False by (subst (2) append_butlast_last_id [symmetric]) (simp_all del: append_butlast_last_id)
    with le have "length (concat (map (record_line cd) (butlast xs))) \<le> max_size cfg" by simp
    from snoc.IH [OF this False]
    have m: "map_of ?fs (log_file cfg) = Some (File (concat (map (record_line cd) xs)))" .
    from file_store_existing [OF m p, of cd x] le
    show ?thesis by (simp add: file_store_all_snoc)
  qed
qed

lemma lines_acc_line:
  "CHR 0x0A \<notin> set l \<Longrightarrow> lines_acc cur (l @ CHR 0x0A # rest) = (cur @ l @ [CHR 0x0A]) # lines_acc [] rest"
  by (induction l arbitrary: cur) auto

lemma readlines_bytes_records:
  "\<forall>e \<in> set ys. round_trips cd e \<Longrightarrow>
   readlines_bytes (concat (map (record_line cd) ys)) = map (record_line cd) ys"
proof (induction ys)
  case Nil
  show ?case by (simp add: readlines_bytes_def)
next
  case (Cons y ys)
  then have "CHR 0x0A \<notin> set (dumps cd y)" by (simp add: round_trips_def)
  from lines_acc_line [OF this, of "[]" "concat (map (record_line cd) ys)"]
  have "lines_acc [] (record_line cd y @ concat (map (record_line cd) ys))
          = record_line cd y # lines_acc [] (concat (map (record_line cd) ys))"
    by (simp add: record_line_def [of cd y])
  moreover have "lines_acc [] (concat (map (record_line cd) ys)) = map (record_line cd) ys"
    using Cons by (simp add: readlines_bytes_def)
  ultimately show ?case by (simp add: readlines_bytes_def)
qed

lemma matches_filters_empty: "matches_filters Map.empty e = Inr True"
  by (simp add: matches_filters_def filters_get_def)

lemma file_retrieve_loop_all_pass:
  "\<forall>e \<in> set es. round_trips cd e \<Longrightarrow>
   file_retrieve_loop cd Map.empty limit (map (record_line cd) es) acc
     = acc @ take (max 1 (nat (limit - int (length acc)))) es"
proof (induction es arbitrary: acc)
  case Nil
  then show ?case by simp
next
  case (Cons e es)
  then have l: "loads cd (record_line cd e) = Some e" by (simp add: round_trips_def)
  show ?case
  proof (cases "int (length acc) + 1 \<ge> limit")
    case True
    then have "max 1 (nat (limit - int (length acc))) = 1" by simp
    with True show ?thesis by (simp add: l matches_filters_empty)
  next
    case False
    define k where "k = nat (limit - int (length acc)) - 2"
    have k: "nat (limit - int (length acc)) = Suc (Suc k)"
      using False unfolding k_def by linarith
    then have k': "nat (limit - int (length (acc @ [e]))) = Suc k" by simp
    show ?thesis using False Cons.prems Cons.IH [of "acc @ [e]"] k k'
      by (simp add: l matches_filters_empty)
  qed
qed

lemma retrieve_lines_records:
  assumes "\<forall>e \<in> set ys. round_trips cd e" "1 \<le> limit"
  shows "retrieve_lines cd Map.empty limit (map (record_line cd) ys) = take (nat limit) (rev ys)"
proof -
  let ?n = "length ys - nat (2 * limit)"
  have pos: "0 < limit" using assms(2) by simp
  have "rev (tail_slice limit (map (record_line cd) ys)) = map (record_line cd) (rev (drop ?n ys))"
    by (simp add: tail_slice_positive [OF pos] drop_map rev_map)
  moreover have "\<forall>e \<in> set (rev (drop ?n ys)). round_trips cd e"
    using assms(1) by (auto dest: in_set_dropD)
  ultimately have "retrieve_lines cd Map.empty limit (map (record_line cd) ys)
      = take (max 1 (nat limit)) (rev (drop ?n ys))"
    by (simp add: retrieve_lines_def file_retrieve_loop_all_pass)
  also have "\<dots> = take (nat limit) (take (length ys - ?n) (rev ys))"
    using assms(2) by (simp add: rev_drop max_def)
  also have "\<dots> = take (nat limit) (rev ys)"
    using assms(2) by (simp add: min_def) 
  finally show ?thesis .
qed

lemma file_retrieve_content:
  assumes "map_of fs (log_file cfg) = Some (File (concat (map (record_line cd) ys)))"
    "\<forall>e \<in> set ys. round_trips cd e" "1 \<le> limit"
  shows "file_retrieve cd cfg fs Map.empty limit = take (nat limit) (rev ys)"
  using assms
  by (simp add: file_retrieve_def path_exists_def readlines_bytes_records retrieve_lines_records)

lemma mem_retrieve_stored:
  assumes "1 \<le> limit"
  shows "mem_retrieve (mem_store_all (MemoryStorage C) xs) Map.empty limit
           = Inr (take (min (nat limit) C) (rev xs))"
proof -
  have "rev (drop (length xs - C) xs) = take (min (length xs) C) (rev xs)"
    by (simp add: rev_drop min_def)
  then have "take (max 1 (nat limit)) (rev (drop (length xs - C) xs))
        = take (min (nat limit) C) (rev xs)"
    using assms by (simp add: max_def min_def) 
  then show ?thesis
    by (simp add: mem_retrieve_no_filters mem_store_all_fresh)
qed

text \<open>
  Claim C4, as stated, fails: what a backend no longer holds cannot come back. A memory
  storage of capacity 3 that was given five entries returns three of them under the
  limit 100, and a file storage whose file was rotated after the first of three entries
  returns the two written since.
\<close>

theorem retrieval_misses_evicted_and_rotated_entries:
  "mem_retrieve (mem_store_all (MemoryStorage 3)
       [LogEntry 0 ''INFO'' ''Message 0'', LogEntry 1 ''INFO'' ''Message 1'',
        LogEntry 2 ''INFO'' ''Message 2'', LogEntry 3 ''INFO'' ''Message 3'',
        LogEntry 4 ''INFO'' ''Message 4'']) Map.empty 100
     = Inr [LogEntry 4 ''INFO'' ''Message 4'', LogEntry 3 ''INFO'' ''Message 3'',
            LogEntry 2 ''INFO'' ''Message 2'']
   \<and> file_retrieve sample_codec sample_storage
       (file_store_all sample_codec sample_storage []
          [LogEntry 0 ''INFO'' ''a long message number one'', LogEntry 0 ''INFO'' ''b'',
           LogEntry 0 ''INFO'' ''c'']) Map.empty 100
     = [LogEntry 0 ''INFO'' ''c'', LogEntry 0 ''INFO'' ''b'']"
  by code_simp


text \<open>
  Claim C4, amended. With no filter and a limit of at least 1, a retrieval returns the
  most recent entries that the backend still holds, most recent first and without gaps,
  up to the limit. For a memory storage of capacity \<open>C\<close> filled from empty these are
  the last \<open>min limit C\<close> entries stored, hence exactly the most recent entries up to
  the limit when the limit does not exceed the capacity. For a file storage started on
  a fresh file, with a codec that gives every stored entry back, they are the most
  recent entries written since the last rotation, and exactly the most recent entries
  up to the limit when no rotation took place.
\<close>

theorem retrieval_is_a_prefix_of_reverse_store_order:
  "(1 \<le> limit \<longrightarrow>
      mem_retrieve (mem_store_all (MemoryStorage C) xs) Map.empty limit
        = Inr (take (min (nat limit) C) (rev xs)))
   \<and> (1 \<le> limit \<and> nat limit \<le> C \<longrightarrow>
      mem_retrieve (mem_store_all (MemoryStorage C) xs) Map.empty limit
        = Inr (take (nat limit) (rev xs)))
   \<and> (1 \<le> limit \<and> map_of fs (log_file cfg) = None \<and> parent_ok cfg fs
        \<and> (\<forall>e \<in> set xs. round_trips cd e) \<longrightarrow>
      (\<exists>k \<le> length xs. (xs \<noteq> [] \<longrightarrow> k < length xs)
         \<and> file_retrieve cd cfg (file_store_all cd cfg fs xs) Map.empty limit
             = take (nat limit) (rev (drop k xs))))
   \<and> (1 \<le> limit \<and> map_of fs (log_file cfg) = None \<and> parent_ok cfg fs
        \<and> (\<forall>e \<in> set xs. round_trips cd e)
        \<and> length (concat (map (record_line cd) (butlast xs))) \<le> max_size cfg \<longrightarrow>
      file_retrieve cd cfg (file_store_all cd cfg fs xs) Map.empty limit
        = take (nat limit) (rev xs))"
proof (intro conjI impI)
  assume "1 \<le> limit"
  then show "mem_retrieve (mem_store_all (MemoryStorage C) xs) Map.empty limit
        = Inr (take (min (nat limit) C) (rev xs))"
    by (rule mem_retrieve_stored)
next
  assume "1 \<le> limit \<and> nat limit \<le> C"
  then show "mem_retrieve (mem_store_all (MemoryStorage C) xs) Map.empty limit
        = Inr (take (nat limit) (rev xs))"
    by (simp add: mem_retrieve_stored min_def)
next
  assume h: "1 \<le> limit \<and> map_of fs (log_file cfg) = None \<and> parent_ok cfg fs
        \<and> (\<forall>e \<in> set xs. round_trips cd e)"
  show "\<exists>k \<le> length xs. (xs \<noteq> [] \<longrightarrow> k < length xs)
         \<and> file_retrieve cd cfg (file_store_all cd cfg fs xs) Map.empty limit
             = take (nat limit) (rev (drop k xs))"
  proof (cases "xs = []")
    case True
    then show ?thesis using h
      by (simp add: file_store_all_def file_retrieve_def path_exists_def)
  next
    case False
    from file_store_all_content [of fs cfg cd xs] h False
    obtain k where k: "k < length xs"
      "map_of (file_store_all cd cfg fs xs) (log_file cfg)
         = Some (File (concat (map (record_line cd) (drop k xs))))"
      by auto
    have "\<forall>e \<in> set (drop k xs). round_trips cd e"
      using h by (auto dest: in_set_dropD)
    from file_retrieve_content [OF k(2) this] h k(1)
    show ?thesis by (intro exI [of _ k]) simp
  qed
next
  assume h: "1 \<le> limit \<and> map_of fs (log_file cfg) = None \<and> parent_ok cfg fs
        \<and> (\<forall>e \<in> set xs. round_trips cd e)
        \<and> length (concat (map (record_line cd) (butlast xs))) \<le> max_size cfg"
  show "file_retrieve cd cfg (file_store_all cd cfg fs xs) Map.empty limit
        = take (nat limit) (rev xs)"
  proof (cases "xs = []")
    case True
    then show ?thesis using h
      by (simp add: file_store_all_def file_retrieve_def path_exists_def)
  next
    case False
    from file_store_all_no_rotation [of fs cfg cd xs] h False
    have "map_of (file_store_all cd cfg fs xs) (log_file cfg)
         = Some (File (concat (map (record_line cd) xs)))" by auto
    from file_retrieve_content [OF this] h show ?thesis by auto
  qed
qed


lemma sample_round_trips:
  "round_trips sample_codec (LogEntry 0 ''INFO'' ''a'')"
  "round_trips sample_codec (LogEntry 0 ''ERROR'' ''b'')"
  "length (concat (map (record_line sample_codec)
       (butlast [LogEntry 0 ''INFO'' ''a'', LogEntry 0 ''ERROR'' ''b''])))
     \<le> max_size sample_storage"
  "parent_ok sample_storage []"
  by code_simp+

theorem retrieval_is_a_prefix_of_reverse_store_order_witness:
  "(1::int) \<le> 2 \<and> nat 2 \<le> (2::nat)
   \<and> mem_retrieve (mem_store_all (MemoryStorage 2)
         [LogEntry 1 ''INFO'' ''a'', LogEntry 2 ''INFO'' ''b'', LogEntry 3 ''INFO'' ''c''])
         Map.empty 2
       = Inr [LogEntry 3 ''INFO'' ''c'', LogEntry 2 ''INFO'' ''b'']
   \<and> map_of ([]::fs) (log_file sample_storage) = None \<and> parent_ok sample_storage []
   \<and> round_trips sample_codec (LogEntry 0 ''INFO'' ''a'')
   \<and> round_trips sample_codec (LogEntry 0 ''ERROR'' ''b'')
   \<and> file_retrieve sample_codec sample_storage
        (file_store_all sample_codec sample_storage []
           [LogEntry 0 ''INFO'' ''a'', LogEntry 0 ''ERROR'' ''b'']) Map.empty 2
       = [LogEntry 0 ''ERROR'' ''b'', LogEntry 0 ''INFO'' ''a'']"
proof -
  let ?xs = "[LogEntry 1 ''INFO'' ''a'', LogEntry 2 ''INFO'' ''b'', LogEntry 3 ''INFO'' ''c'']"
  let ?ys = "[LogEntry 0 ''INFO'' ''a'', LogEntry 0 ''ERROR'' ''b'']"
  have l: "(1::int) \<le> 2 \<and> nat 2 \<le> (2::nat)" by simp
  have m: "map_of ([]::fs) (log_file sample_storage) = None" by simp
  have rt: "\<forall>e \<in> set ?ys. round_trips sample_codec e"
    using sample_round_trips(1,2) by simp
  note a = retrieval_is_a_prefix_of_reverse_store_order
      [of 2 2 ?xs "[]" sample_storage sample_codec, THEN conjunct2, THEN conjunct1]
  note b = retrieval_is_a_prefix_of_reverse_store_order
      [of 2 2 ?ys "[]" sample_storage sample_codec, THEN conjunct2, THEN conjunct2, THEN conjunct2]
  from a l have r1: "mem_retrieve (mem_store_all (MemoryStorage 2) ?xs) Map.empty 2
       = Inr (take (nat 2) (rev ?xs))" by blast
  from b l m rt sample_round_trips(3,4)
  have r2: "file_retrieve sample_codec sample_storage
        (file_store_all sample_codec sample_storage [] ?ys) Map.empty 2
       = take (nat 2) (rev ?ys)" by blast
  show ?thesis using l m sample_round_trips(1,2,4) r1 r2 by simp
qed

end
